theory Spec2Isabelle
  imports Complex_Main "HOL-Library.Word"
begin

unbundle bit_operations_syntax

section \<open>The guarded stack of main.cpp\<close>

text \<open>
  The class template \<open>CherepkovStack<T, Hash, Allocator>\<close> is embedded with the element
  type \<open>T\<close> as the type variable \<open>'a\<close>. \<open>size_t\<close> and the result of \<open>std::hash\<close> are
  64-bit words, so \<open>++size_\<close>, \<open>size_ - 1\<close>, \<open>size_ * GROWTH_FACTOR_\<close> and the running sum
  wrap around as in the program; \<open>errors_\<close> (an \<open>int\<close>) is a 32-bit word.

  The members \<open>hash_function_\<close> and \<open>allocator_\<close> never change after construction; they
  are parameters of the methods (\<open>h\<close>, and the result of the one call of
  \<open>allocator_.allocate\<close> a method can make). The trailing underscore of the member names
  is dropped, and \<open>size_\<close> is \<open>size_m\<close>.
\<close>

type_synonym size_t = "64 word"
type_synonym hash_value_type = "64 word"

definition POISON :: size_t where
  "POISON = 0xDEADBEEF"

definition GROWTH_FACTOR :: size_t where
  "GROWTH_FACTOR = 2"

datatype StackErrors =
    POP_FROM_EMPTY_STACK
  | BAD_ALLOC
  | WRONG_CONTROL_SUM
  | CANARY_BEFORE_CORRUPTED
  | CANARY_AFTER_CORRUPTED
  | TOP_FROM_EMPTY_STACK

text \<open>The enumerators' values, \<open>1 << 1\<close> to \<open>1 << 6\<close>.\<close>

fun error_value :: "StackErrors \<Rightarrow> 32 word" where
  "error_value POP_FROM_EMPTY_STACK = push_bit 1 1"
| "error_value BAD_ALLOC = push_bit 2 1"
| "error_value WRONG_CONTROL_SUM = push_bit 3 1"
| "error_value CANARY_BEFORE_CORRUPTED = push_bit 4 1"
| "error_value CANARY_AFTER_CORRUPTED = push_bit 5 1"
| "error_value TOP_FROM_EMPTY_STACK = push_bit 6 1"

text \<open>
  The private members, in declaration order. \<open>buffer\<close> is \<open>None\<close> for \<open>nullptr\<close> and
  otherwise the block it points to, one list entry per allocated slot: a slot that was
  never written holds whatever the allocator handed out.
\<close>

record 'a CherepkovStack =
  canary_before :: size_t
  control_sum :: hash_value_type
  capacity :: size_t
  size_m :: size_t
  buffer :: "'a list option"
  errors :: "32 word"
  canary_after :: size_t

text \<open>
  The two switches at the head of the file: \<open>STACK_SAFE_MODE\<close> turns \<open>CHECK_VALIDITY\<close>
  into a call of \<open>check_validity\<close>, \<open>STACK_ENABLE_DUMP\<close> compiles \<open>dump\<close> in. The file
  defines both.
\<close>

record config =
  STACK_SAFE_MODE :: bool
  STACK_ENABLE_DUMP :: bool

definition as_shipped :: config where
  "as_shipped = \<lparr>STACK_SAFE_MODE = True, STACK_ENABLE_DUMP = True\<rparr>"

text \<open>
  How a call ends: it returns a value, it leaves by
  \<open>throw std::runtime_error("Stack exception")\<close>, an \<open>assert\<close> stops the process, or it
  touches memory outside a block (or through \<open>nullptr\<close>), after which the program has no
  defined behaviour. The first two leave the object behind, in the state given; after the
  other two there is no object to speak of. Assertions are compiled in: the file does not
  define \<open>NDEBUG\<close>.
\<close>

datatype ('r, 's) outcome = Return 'r 's | Throw 's | AssertFail | Undefined

text \<open>
  What is written to \<open>stderr\<close>. The fixed lines are kept as text (without tab and
  newline); the dump is kept structurally, without the two addresses it prints.
\<close>

datatype 'a out_item =
    Msg string
  | DumpBegin size_t
  | DumpSlot nat 'a
  | DumpEnd size_t

text \<open>A method's result: what it wrote to \<open>stderr\<close>, and how it ended.\<close>

type_synonym ('r, 'a) result = "'a out_item list \<times> ('r, 'a CherepkovStack) outcome"

text \<open>
  The result of \<open>allocator_.allocate(n)\<close>: \<open>std::bad_alloc\<close>, or a fresh block whose
  slot \<open>i\<close> holds \<open>junk i\<close>.
\<close>

datatype 'a alloc_result = bad_alloc | fresh "nat \<Rightarrow> 'a"

definition block :: "(nat \<Rightarrow> 'a) \<Rightarrow> size_t \<Rightarrow> 'a list" where
  "block junk n = map junk [0..<unat n]"

subsection \<open>Macros\<close>

definition has_error :: "StackErrors \<Rightarrow> 'a CherepkovStack \<Rightarrow> bool" where
  "has_error e s \<longleftrightarrow> (errors s AND error_value e) \<noteq> 0"

definition set_error :: "StackErrors \<Rightarrow> 'a CherepkovStack \<Rightarrow> 'a CherepkovStack" where
  "set_error e s = s\<lparr>errors := errors s OR error_value e\<rparr>"

subsection \<open>Memory access\<close>

definition read_slot :: "'a list option \<Rightarrow> nat \<Rightarrow> 'a option" where
  "read_slot p i =
     (case p of
        None \<Rightarrow> None
      | Some b \<Rightarrow> if i < length b then Some (b ! i) else None)"

definition write_slot :: "'a list option \<Rightarrow> nat \<Rightarrow> 'a \<Rightarrow> 'a list option" where
  "write_slot p i v =
     (case p of
        None \<Rightarrow> None
      | Some b \<Rightarrow> if i < length b then Some (b[i := v]) else None)"

text \<open>
  No constructor ever runs on a slot: the block is what \<open>allocate\<close> returned, and every
  store into it is an assignment of \<open>T\<close>. The copy assignment (\<open>write_slot\<close>) stores the
  value whatever the slot held. The move assignment is \<open>T\<close>'s own and a parameter of the
  model, as the hash is: \<open>mv old v\<close> says whether move-assigning \<open>v\<close> to a destination
  whose storage holds \<open>old\<close> is defined. For a scalar it always is. For \<open>std::string\<close>, the
  type \<open>main\<close> instantiates, it is not when \<open>old\<close> is storage no string was ever put in: a
  short string is moved by copying its characters to where the destination keeps its own.
\<close>

definition move_slot ::
  "('a \<Rightarrow> 'a \<Rightarrow> bool) \<Rightarrow> 'a list option \<Rightarrow> nat \<Rightarrow> 'a \<Rightarrow> 'a list option" where
  "move_slot mv p i v =
     (case p of
        None \<Rightarrow> None
      | Some b \<Rightarrow> if i < length b \<and> mv (b ! i) v then Some (b[i := v]) else None)"

text \<open>\<open>std::copy(src, src + n, dst)\<close>; an empty range touches nothing.\<close>

definition std_copy :: "'a list option \<Rightarrow> nat \<Rightarrow> 'a list \<Rightarrow> 'a list option" where
  "std_copy src n dst =
     (if n = 0 then Some dst
      else case src of
        None \<Rightarrow> None
      | Some b \<Rightarrow> if n \<le> length b \<and> n \<le> length dst then Some (take n b @ drop n dst) else None)"

subsection \<open>Private methods\<close>

text \<open>The loop of \<open>check_control_sum\<close>, from index \<open>i\<close> with the sum so far.\<close>

function control_sum_loop ::
  "('a \<Rightarrow> hash_value_type) \<Rightarrow> 'a list option \<Rightarrow> nat \<Rightarrow> nat \<Rightarrow> hash_value_type
     \<Rightarrow> hash_value_type option" where
  "control_sum_loop h p n i acc =
     (if i < n then
        (case read_slot p i of
           None \<Rightarrow> None
         | Some x \<Rightarrow> control_sum_loop h p n (Suc i) (acc + h x))
      else Some acc)"
  by pat_completeness auto
termination
  by (relation "measure (\<lambda>(h, p, n, i, acc). n - i)") auto

declare control_sum_loop.simps [simp del]

text \<open>\<open>None\<close>: the loop read outside the block.\<close>

definition check_control_sum ::
  "('a \<Rightarrow> hash_value_type) \<Rightarrow> 'a CherepkovStack \<Rightarrow> 'a CherepkovStack option" where
  "check_control_sum h s =
     (case control_sum_loop h (buffer s) (unat (size_m s)) 0 0 of
        None \<Rightarrow> None
      | Some cs \<Rightarrow>
          Some (if control_sum s \<noteq> cs then set_error WRONG_CONTROL_SUM s else s))"

definition check_canaries :: "'a CherepkovStack \<Rightarrow> 'a CherepkovStack" where
  "check_canaries s =
     (let s1 = (if canary_before s \<noteq> POISON then set_error CANARY_BEFORE_CORRUPTED s else s)
      in if canary_after s1 \<noteq> POISON then set_error CANARY_AFTER_CORRUPTED s1 else s1)"

text \<open>The loop of \<open>dump\<close> over all \<open>capacity_\<close> slots, from index \<open>i\<close>.\<close>

function dump_loop :: "'a list option \<Rightarrow> nat \<Rightarrow> nat \<Rightarrow> 'a out_item list option" where
  "dump_loop p n i =
     (if i < n then
        (case read_slot p i of
           None \<Rightarrow> None
         | Some x \<Rightarrow>
             (case dump_loop p n (Suc i) of
                None \<Rightarrow> None
              | Some rest \<Rightarrow> Some (DumpSlot i x # rest)))
      else Some [])"
  by pat_completeness auto
termination
  by (relation "measure (\<lambda>(p, n, i). n - i)") auto

declare dump_loop.simps [simp del]

definition dump :: "'a CherepkovStack \<Rightarrow> 'a out_item list option" where
  "dump s =
     (if buffer s = None then Some []
      else case dump_loop (buffer s) (unat (capacity s)) 0 of
        None \<Rightarrow> None
      | Some slots \<Rightarrow> Some ([DumpBegin (capacity s)] @ slots @ [DumpEnd (size_m s)]))"

definition error_line :: "StackErrors \<Rightarrow> string" where
  "error_line e =
     (case e of
        POP_FROM_EMPTY_STACK \<Rightarrow> ''Pop from empty stack was performed;''
      | BAD_ALLOC \<Rightarrow> ''Failed to allocate memory;''
      | WRONG_CONTROL_SUM \<Rightarrow> ''Check of control sum failed;''
      | CANARY_BEFORE_CORRUPTED \<Rightarrow> ''Canary before the stack is corrupted;''
      | CANARY_AFTER_CORRUPTED \<Rightarrow> ''Canary after the stack is corrupted;''
      | TOP_FROM_EMPTY_STACK \<Rightarrow> ''Top from empty stack was performed;'')"

definition print_errors :: "config \<Rightarrow> 'a CherepkovStack \<Rightarrow> (unit, 'a) result" where
  "print_errors cfg s =
     (if errors s = 0 then ([], Return () s)
      else
        let out0 = [Msg ''Errors found:''];
            out1 = (if has_error POP_FROM_EMPTY_STACK s
                    then out0 @ [Msg (error_line POP_FROM_EMPTY_STACK)] else out0);
            out2 = (if has_error BAD_ALLOC s
                    then out1 @ [Msg (error_line BAD_ALLOC)] else out1);
            out3 = (if has_error WRONG_CONTROL_SUM s
                    then out2 @ [Msg (error_line WRONG_CONTROL_SUM)] else out2);
            out4 = (if has_error CANARY_BEFORE_CORRUPTED s
                    then out3 @ [Msg (error_line CANARY_BEFORE_CORRUPTED)] else out3);
            out5 = (if has_error CANARY_AFTER_CORRUPTED s
                    then out4 @ [Msg (error_line CANARY_AFTER_CORRUPTED)] else out4);
            out6 = (if has_error TOP_FROM_EMPTY_STACK s
                    then out5 @ [Msg (error_line TOP_FROM_EMPTY_STACK)] else out5)
        in if STACK_ENABLE_DUMP cfg then
             (case dump s of
                None \<Rightarrow> (out6, Undefined)
              | Some d \<Rightarrow> (out6 @ d, Throw s))
           else (out6, Throw s))"

definition check_validity ::
  "config \<Rightarrow> ('a \<Rightarrow> hash_value_type) \<Rightarrow> 'a CherepkovStack \<Rightarrow> (unit, 'a) result" where
  "check_validity cfg h s =
     (case check_control_sum h s of
        None \<Rightarrow> ([], Undefined)
      | Some s1 \<Rightarrow> print_errors cfg (check_canaries s1))"

text \<open>The macro \<open>CHECK_VALIDITY\<close>.\<close>

definition CHECK_VALIDITY ::
  "config \<Rightarrow> ('a \<Rightarrow> hash_value_type) \<Rightarrow> 'a CherepkovStack \<Rightarrow> (unit, 'a) result" where
  "CHECK_VALIDITY cfg h s =
     (if STACK_SAFE_MODE cfg then check_validity cfg h s else ([], Return () s))"

text \<open>
  \<open>expand\<close>, given what \<open>allocator_.allocate(new_capacity)\<close> does. It writes nothing to
  \<open>stderr\<close>. Releasing the old block leaves nothing behind in the model.
\<close>

definition expand ::
  "'a alloc_result \<Rightarrow> 'a CherepkovStack \<Rightarrow> (unit, 'a CherepkovStack) outcome" where
  "expand a s =
     (if size_m s \<noteq> capacity s then AssertFail
      else
        let new_capacity = size_m s * GROWTH_FACTOR
        in case a of
             bad_alloc \<Rightarrow> Return () (set_error BAD_ALLOC s)
           | fresh junk \<Rightarrow>
               (case std_copy (buffer s) (unat (capacity s)) (block junk new_capacity) of
                  None \<Rightarrow> Undefined
                | Some new_buffer \<Rightarrow>
                    Return () (s\<lparr>buffer := Some new_buffer, capacity := new_capacity\<rparr>)))"

subsection \<open>Constructor and public methods\<close>

text \<open>
  The constructor, given what \<open>allocator_.allocate(capacity_)\<close> does. When it throws,
  the state is the one the members had at the throw.
\<close>

definition CherepkovStack_new ::
  "config \<Rightarrow> ('a \<Rightarrow> hash_value_type) \<Rightarrow> size_t \<Rightarrow> 'a alloc_result \<Rightarrow> (unit, 'a) result" where
  "CherepkovStack_new cfg h cap a =
     (let s0 = \<lparr>canary_before = POISON, control_sum = 0, capacity = cap, size_m = 0,
                buffer = None, errors = 0, canary_after = POISON\<rparr>;
          s1 = (case a of
                  bad_alloc \<Rightarrow> set_error BAD_ALLOC s0
                | fresh junk \<Rightarrow> s0\<lparr>buffer := Some (block junk cap)\<rparr>)
      in CHECK_VALIDITY cfg h s1)"

definition empty ::
  "config \<Rightarrow> ('a \<Rightarrow> hash_value_type) \<Rightarrow> 'a CherepkovStack \<Rightarrow> (bool, 'a) result" where
  "empty cfg h s =
     (case CHECK_VALIDITY cfg h s of
        (out, Return _ s1) \<Rightarrow> (out, Return (size_m s1 = 0) s1)
      | (out, Throw s1) \<Rightarrow> (out, Throw s1)
      | (out, AssertFail) \<Rightarrow> (out, AssertFail)
      | (out, Undefined) \<Rightarrow> (out, Undefined))"

definition pop ::
  "config \<Rightarrow> ('a \<Rightarrow> hash_value_type) \<Rightarrow> 'a CherepkovStack \<Rightarrow> (unit, 'a) result" where
  "pop cfg h s =
     (if size_m s = 0 then CHECK_VALIDITY cfg h (set_error POP_FROM_EMPTY_STACK s)
      else
        (case read_slot (buffer s) (unat (size_m s - 1)) of
           None \<Rightarrow> ([], Undefined)
         | Some x \<Rightarrow>
             (let s1 = s\<lparr>control_sum := control_sum s - h x\<rparr>;
                  s2 = s1\<lparr>size_m := size_m s1 - 1\<rparr>
              in CHECK_VALIDITY cfg h s2)))"

text \<open>
  \<open>top() const\<close>; the other \<open>top()\<close> only forwards to it. The element is returned by
  value.
\<close>

definition top ::
  "config \<Rightarrow> ('a \<Rightarrow> hash_value_type) \<Rightarrow> 'a CherepkovStack \<Rightarrow> ('a, 'a) result" where
  "top cfg h s =
     (let s0 = (if size_m s = 0 then set_error TOP_FROM_EMPTY_STACK s else s)
      in case CHECK_VALIDITY cfg h s0 of
           (out, Return _ s1) \<Rightarrow>
             (case read_slot (buffer s1) (unat (size_m s1 - 1)) of
                None \<Rightarrow> (out, Undefined)
              | Some x \<Rightarrow> (out, Return x s1))
         | (out, Throw s1) \<Rightarrow> (out, Throw s1)
         | (out, AssertFail) \<Rightarrow> (out, AssertFail)
         | (out, Undefined) \<Rightarrow> (out, Undefined))"

text \<open>
  \<open>push(const_reference)\<close>: store, count, then add the hash. The element is a value of
  its own: a reference into the instance's buffer, which \<open>expand\<close> would leave dangling,
  is not modelled.
\<close>

definition push ::
  "config \<Rightarrow> ('a \<Rightarrow> hash_value_type) \<Rightarrow> 'a \<Rightarrow> 'a alloc_result \<Rightarrow> 'a CherepkovStack
     \<Rightarrow> (unit, 'a) result" where
  "push cfg h element a s =
     (case (if size_m s = capacity s then expand a s else Return () s) of
        Return _ s1 \<Rightarrow>
          (case CHECK_VALIDITY cfg h s1 of
             (out, Return _ s2) \<Rightarrow>
               if \<not> size_m s2 < capacity s2 then (out, AssertFail)
               else
                 (case write_slot (buffer s2) (unat (size_m s2)) element of
                    None \<Rightarrow> (out, Undefined)
                  | Some b \<Rightarrow>
                      (let s3 = s2\<lparr>buffer := Some b\<rparr>;
                           s4 = s3\<lparr>size_m := size_m s3 + 1\<rparr>;
                           s5 = s4\<lparr>control_sum := control_sum s4 + h element\<rparr>
                       in (out, Return () s5)))
           | (out, Throw s2) \<Rightarrow> (out, Throw s2)
           | (out, AssertFail) \<Rightarrow> (out, AssertFail)
           | (out, Undefined) \<Rightarrow> (out, Undefined))
      | Throw s1 \<Rightarrow> ([], Throw s1)
      | AssertFail \<Rightarrow> ([], AssertFail)
      | Undefined \<Rightarrow> ([], Undefined))"

text \<open>
  \<open>push(rvalue_reference)\<close>: add the hash, then store by move assignment and count.
\<close>

definition push_rvalue ::
  "config \<Rightarrow> ('a \<Rightarrow> hash_value_type) \<Rightarrow> ('a \<Rightarrow> 'a \<Rightarrow> bool) \<Rightarrow> 'a \<Rightarrow> 'a alloc_result
     \<Rightarrow> 'a CherepkovStack \<Rightarrow> (unit, 'a) result" where
  "push_rvalue cfg h mv element a s =
     (case (if size_m s = capacity s then expand a s else Return () s) of
        Return _ s1 \<Rightarrow>
          (case CHECK_VALIDITY cfg h s1 of
             (out, Return _ s2) \<Rightarrow>
               if \<not> size_m s2 < capacity s2 then (out, AssertFail)
               else
                 (let s3 = s2\<lparr>control_sum := control_sum s2 + h element\<rparr>
                  in case move_slot mv (buffer s3) (unat (size_m s3)) element of
                       None \<Rightarrow> (out, Undefined)
                     | Some b \<Rightarrow>
                         (let s4 = s3\<lparr>buffer := Some b\<rparr>;
                              s5 = s4\<lparr>size_m := size_m s4 + 1\<rparr>
                          in (out, Return () s5)))
           | (out, Throw s2) \<Rightarrow> (out, Throw s2)
           | (out, AssertFail) \<Rightarrow> (out, AssertFail)
           | (out, Undefined) \<Rightarrow> (out, Undefined))
      | Throw s1 \<Rightarrow> ([], Throw s1)
      | AssertFail \<Rightarrow> ([], AssertFail)
      | Undefined \<Rightarrow> ([], Undefined))"

subsection \<open>Callers\<close>

text \<open>
  A caller's view of the public methods: one call, and a sequence of calls on the same
  object. A caller that catches the exception can go on using the object, so a sequence
  goes on after \<open>Throw\<close>; it ends where the process ends.
\<close>

datatype 'a ret = Void | Bool bool | Elem 'a

datatype 'a operation =
    Op_empty
  | Op_pop
  | Op_top
  | Op_push 'a "'a alloc_result"
  | Op_push_rvalue 'a "'a alloc_result"

definition call ::
  "config \<Rightarrow> ('a \<Rightarrow> hash_value_type) \<Rightarrow> ('a \<Rightarrow> 'a \<Rightarrow> bool) \<Rightarrow> 'a operation
     \<Rightarrow> 'a CherepkovStack \<Rightarrow> ('a ret, 'a) result" where
  "call cfg h mv op s =
     (case op of
        Op_empty \<Rightarrow> (case empty cfg h s of (out, oc) \<Rightarrow> (out, map_outcome Bool id oc))
      | Op_pop \<Rightarrow> (case pop cfg h s of (out, oc) \<Rightarrow> (out, map_outcome (\<lambda>_. Void) id oc))
      | Op_top \<Rightarrow> (case top cfg h s of (out, oc) \<Rightarrow> (out, map_outcome Elem id oc))
      | Op_push v a \<Rightarrow>
          (case push cfg h v a s of (out, oc) \<Rightarrow> (out, map_outcome (\<lambda>_. Void) id oc))
      | Op_push_rvalue v a \<Rightarrow>
          (case push_rvalue cfg h mv v a s of (out, oc) \<Rightarrow> (out, map_outcome (\<lambda>_. Void) id oc)))"

definition state_of :: "('r, 's) outcome \<Rightarrow> 's option" where
  "state_of oc = (case oc of Return _ s \<Rightarrow> Some s | Throw s \<Rightarrow> Some s | _ \<Rightarrow> None)"

fun run ::
  "config \<Rightarrow> ('a \<Rightarrow> hash_value_type) \<Rightarrow> ('a \<Rightarrow> 'a \<Rightarrow> bool) \<Rightarrow> 'a operation list
     \<Rightarrow> 'a CherepkovStack \<Rightarrow> ('a ret, 'a) result list" where
  "run cfg h mv [] s = []"
| "run cfg h mv (op # ops) s =
     (let r = call cfg h mv op s
      in r # (case state_of (snd r) of None \<Rightarrow> [] | Some s' \<Rightarrow> run cfg h mv ops s'))"

text \<open>
  The calls of a sequence that enter \<open>expand\<close> (a \<open>push\<close> on \<open>size_ == capacity_\<close>),
  each with the capacity before and after the call.
\<close>

definition is_push :: "'a operation \<Rightarrow> bool" where
  "is_push op = (case op of Op_push _ _ \<Rightarrow> True | Op_push_rvalue _ _ \<Rightarrow> True | _ \<Rightarrow> False)"

fun growths ::
  "config \<Rightarrow> ('a \<Rightarrow> hash_value_type) \<Rightarrow> ('a \<Rightarrow> 'a \<Rightarrow> bool) \<Rightarrow> 'a operation list
     \<Rightarrow> 'a CherepkovStack \<Rightarrow> (nat \<times> nat) list" where
  "growths cfg h mv [] s = []"
| "growths cfg h mv (op # ops) s =
     (case state_of (snd (call cfg h mv op s)) of
        None \<Rightarrow> []
      | Some s' \<Rightarrow>
          (if is_push op \<and> size_m s = capacity s
           then [(unat (capacity s), unat (capacity s'))] else [])
          @ growths cfg h mv ops s')"

subsection \<open>Predicates on states\<close>

text \<open>The live elements \<open>buffer_[0..size_)\<close>, bottom first.\<close>

definition live :: "'a CherepkovStack \<Rightarrow> 'a list" where
  "live s = (case buffer s of None \<Rightarrow> [] | Some b \<Rightarrow> take (unat (size_m s)) b)"

text \<open>\<open>buffer_\<close> points to a block of \<open>capacity_\<close> slots.\<close>

definition allocated :: "'a CherepkovStack \<Rightarrow> bool" where
  "allocated s \<longleftrightarrow>
     (case buffer s of None \<Rightarrow> False | Some b \<Rightarrow> length b = unat (capacity s))"

text \<open>
  An uncorrupted instance: both canaries intact, \<open>size_ <= capacity_\<close>, the block as
  large as \<open>capacity_\<close> says, and the stored sum equal to the sum of the hashes of the
  live elements.
\<close>

definition uncorrupted :: "('a \<Rightarrow> hash_value_type) \<Rightarrow> 'a CherepkovStack \<Rightarrow> bool" where
  "uncorrupted h s \<longleftrightarrow>
     canary_before s = POISON \<and> canary_after s = POISON \<and>
     size_m s \<le> capacity s \<and> allocated s \<and>
     control_sum s = sum_list (map h (live s))"

text \<open>The order in which \<open>print_errors\<close> tests the bits.\<close>

definition report_order :: "StackErrors list" where
  "report_order =
     [POP_FROM_EMPTY_STACK, BAD_ALLOC, WRONG_CONTROL_SUM, CANARY_BEFORE_CORRUPTED,
      CANARY_AFTER_CORRUPTED, TOP_FROM_EMPTY_STACK]"

subsection \<open>The stack as a sequence\<close>

text \<open>
  The specification's view: the stack is the sequence of its live elements; a push
  appends, a pop removes the last element, \<open>top\<close> and \<open>empty\<close> change nothing.
\<close>

fun spec_step :: "'a list \<Rightarrow> 'a operation \<Rightarrow> 'a list" where
  "spec_step xs Op_empty = xs"
| "spec_step xs Op_pop = butlast xs"
| "spec_step xs Op_top = xs"
| "spec_step xs (Op_push v a) = xs @ [v]"
| "spec_step xs (Op_push_rvalue v a) = xs @ [v]"

definition spec_run :: "'a list \<Rightarrow> 'a operation list \<Rightarrow> 'a list" where
  "spec_run xs ops = foldl spec_step xs ops"

text \<open>
  A sequence of calls that never pops (or reads the top of) the empty stack and in which
  no allocation fails.
\<close>

fun well_used :: "'a list \<Rightarrow> 'a operation list \<Rightarrow> bool" where
  "well_used xs [] \<longleftrightarrow> True"
| "well_used xs (Op_empty # ops) \<longleftrightarrow> well_used xs ops"
| "well_used xs (Op_pop # ops) \<longleftrightarrow> xs \<noteq> [] \<and> well_used (butlast xs) ops"
| "well_used xs (Op_top # ops) \<longleftrightarrow> xs \<noteq> [] \<and> well_used xs ops"
| "well_used xs (Op_push v a # ops) \<longleftrightarrow> a \<noteq> bad_alloc \<and> well_used (xs @ [v]) ops"
| "well_used xs (Op_push_rvalue v a # ops) \<longleftrightarrow> a \<noteq> bad_alloc \<and> well_used (xs @ [v]) ops"

text \<open>A sequence of pushes of the given values, by either overload, no allocation failing.\<close>

fun pushes_of :: "'a operation list \<Rightarrow> 'a list option" where
  "pushes_of [] = Some []"
| "pushes_of (Op_push v (fresh j) # ops) = map_option (Cons v) (pushes_of ops)"
| "pushes_of (Op_push_rvalue v (fresh j) # ops) = map_option (Cons v) (pushes_of ops)"
| "pushes_of (op # ops) = None"

text \<open>
  Every by-move push of the sequence moves a value whose move assignment is defined
  whatever the destination holds. A sequence without by-move pushes satisfies it.
\<close>

definition moves_defined :: "('a \<Rightarrow> 'a \<Rightarrow> bool) \<Rightarrow> 'a operation list \<Rightarrow> bool" where
  "moves_defined mv ops \<longleftrightarrow> (\<forall>v a. Op_push_rvalue v a \<in> set ops \<longrightarrow> (\<forall>old. mv old v))"

subsection \<open>Sample data\<close>

text \<open>
  A scalar element type: numbers, hashed to themselves (as \<open>std::hash\<close> on integers),
  fresh blocks full of zeros, and a move assignment that is a plain store.
\<close>

definition hash_nat :: "nat \<Rightarrow> hash_value_type" where
  "hash_nat n = of_nat n"

definition junk_nat :: "nat \<Rightarrow> nat" where
  "junk_nat i = 0"

definition scalar_move :: "nat \<Rightarrow> nat \<Rightarrow> bool" where
  "scalar_move old v \<longleftrightarrow> True"





section \<open>Properties\<close>

subsection \<open>Error bits\<close>

lemma has_error_set_error: "has_error e (set_error e s)"
  by (cases e) (simp_all add: has_error_def set_error_def)

lemma has_error_set_error_other: "has_error e s \<Longrightarrow> has_error e (set_error e' s)"
  by (auto simp: has_error_def set_error_def word_ao_dist or_eq_0_iff)

lemma errors_set_error_nonzero: "errors (set_error e s) \<noteq> 0"
  using has_error_set_error [of e s] by (auto simp: has_error_def)

lemma set_error_fields [simp]:
  "canary_before (set_error e s) = canary_before s"
  "canary_after (set_error e s) = canary_after s"
  "control_sum (set_error e s) = control_sum s"
  "capacity (set_error e s) = capacity s"
  "size_m (set_error e s) = size_m s"
  "buffer (set_error e s) = buffer s"
  by (simp_all add: set_error_def)

lemma live_set_error [simp]: "live (set_error e s) = live s"
  by (simp add: live_def split: option.splits)

lemma allocated_set_error [simp]: "allocated (set_error e s) = allocated s"
  by (simp add: allocated_def split: option.splits)

lemma uncorrupted_set_error [simp]: "uncorrupted h (set_error e s) = uncorrupted h s"
  by (simp add: uncorrupted_def)

lemma dump_set_error [simp]: "dump (set_error e s) = dump s"
  by (simp add: dump_def split: option.splits)

subsection \<open>The loops\<close>

lemma control_sum_loop_Some:
  "i \<le> n \<Longrightarrow> n \<le> length b \<Longrightarrow>
   control_sum_loop h (Some b) n i acc = Some (acc + sum_list (map h (drop i (take n b))))"
proof (induction h "Some b" n i acc rule: control_sum_loop.induct)
  case (1 h n i acc)
  show ?case
  proof (cases "i < n")
    case True
    then have r: "read_slot (Some b) i = Some (b ! i)"
      using "1.prems" by (simp add: read_slot_def)
    have d: "drop i (take n b) = b ! i # drop (Suc i) (take n b)"
      using True "1.prems" by (metis Cons_nth_drop_Suc length_take min.absorb2 nth_take)
    show ?thesis
      using True "1.prems" "1.hyps" [OF True r]
      by (subst control_sum_loop.simps) (simp add: r d add.assoc)
  next
    case False
    then show ?thesis
      using "1.prems" by (subst control_sum_loop.simps) simp
  qed
qed

lemma control_sum_loop_zero: "control_sum_loop h p 0 0 acc = Some acc"
  by (subst control_sum_loop.simps) simp

lemma dump_loop_Some:
  "n \<le> length b \<Longrightarrow> dump_loop (Some b) n i = Some (map (\<lambda>j. DumpSlot j (b ! j)) [i..<n])"
proof (induction "Some b" n i rule: dump_loop.induct)
  case (1 n i)
  show ?case
  proof (cases "i < n")
    case True
    then have r: "read_slot (Some b) i = Some (b ! i)"
      using "1.prems" by (simp add: read_slot_def)
    show ?thesis
      using True "1.hyps" [OF True r "1.prems"]
      by (subst dump_loop.simps) (simp add: r upt_conv_Cons)
  next
    case False
    then show ?thesis by (subst dump_loop.simps) simp
  qed
qed

lemma dump_allocated: "allocated s \<Longrightarrow> \<exists>d. dump s = Some d"
  by (auto simp: allocated_def dump_def dump_loop_Some split: option.splits)

subsection \<open>Validation\<close>

lemma check_control_sum_uncorrupted: "uncorrupted h s \<Longrightarrow> check_control_sum h s = Some s"
  by (auto simp: uncorrupted_def allocated_def check_control_sum_def live_def
      control_sum_loop_Some word_le_nat_alt split: option.splits)

lemma check_canaries_uncorrupted: "uncorrupted h s \<Longrightarrow> check_canaries s = s"
  by (simp add: uncorrupted_def check_canaries_def)

lemma print_errors_zero: "errors s = 0 \<Longrightarrow> print_errors cfg s = ([], Return () s)"
  by (simp add: print_errors_def)

lemma print_errors_lines:
  assumes "errors s \<noteq> 0"
  shows "print_errors cfg s =
    (if STACK_ENABLE_DUMP cfg then
       (case dump s of
          None \<Rightarrow> (Msg ''Errors found:'' #
                     map (\<lambda>e. Msg (error_line e)) (filter (\<lambda>e. has_error e s) report_order),
                   Undefined)
        | Some d \<Rightarrow> (Msg ''Errors found:'' #
                     map (\<lambda>e. Msg (error_line e)) (filter (\<lambda>e. has_error e s) report_order) @ d,
                     Throw s))
     else (Msg ''Errors found:'' #
             map (\<lambda>e. Msg (error_line e)) (filter (\<lambda>e. has_error e s) report_order),
           Throw s))"
  using assms by (simp add: print_errors_def report_order_def Let_def split: option.splits)

lemma CHECK_VALIDITY_ok:
  "uncorrupted h s \<Longrightarrow> errors s = 0 \<Longrightarrow> CHECK_VALIDITY cfg h s = ([], Return () s)"
  by (simp add: CHECK_VALIDITY_def check_validity_def check_control_sum_uncorrupted
      check_canaries_uncorrupted print_errors_zero)

subsection \<open>The two overloads of push\<close>

lemma move_slot_defined: "\<forall>old. mv old v \<Longrightarrow> move_slot mv p i v = write_slot p i v"
  by (simp add: move_slot_def write_slot_def split: option.splits)

lemma push_rvalue_eq_push:
  "\<forall>old. mv old v \<Longrightarrow> push_rvalue cfg h mv v a s = push cfg h v a s"
  by (auto simp: push_def push_rvalue_def Let_def move_slot_defined
      split: prod.splits outcome.splits option.splits)

text \<open>
  Where the two differ, the by-copy overload has returned and the by-move overload has
  met a move assignment that is not defined.
\<close>

lemma push_rvalue_cases:
  "push_rvalue cfg h mv v a s = push cfg h v a s \<or>
   ((\<exists>x s'. snd (push cfg h v a s) = Return x s') \<and>
    snd (push_rvalue cfg h mv v a s) = Undefined)"
  by (auto simp: push_def push_rvalue_def Let_def move_slot_def write_slot_def
      split: prod.splits outcome.splits option.splits if_splits)


subsection \<open>Failed allocations\<close>

text \<open>
  C6. On \<open>size_ == capacity_\<close>, when the allocation of the doubled block fails, \<open>expand\<close>
  returns, the bit \<open>BAD_ALLOC\<close> is set, and capacity, buffer, size, checksum, the
  canaries and the live elements are as before.
\<close>

theorem expand_bad_alloc_frame:
  assumes "size_m s = capacity s"
  shows "\<exists>s'. expand bad_alloc s = Return () s' \<and> has_error BAD_ALLOC s' \<and>
           errors s' = errors s OR error_value BAD_ALLOC \<and>
           capacity s' = capacity s \<and> buffer s' = buffer s \<and> size_m s' = size_m s \<and>
           control_sum s' = control_sum s \<and> live s' = live s \<and>
           canary_before s' = canary_before s \<and> canary_after s' = canary_after s"
  using assms by (simp add: expand_def has_error_set_error) (simp add: set_error_def)

theorem expand_bad_alloc_frame_witness:
  "\<exists>s'. expand bad_alloc
          \<lparr>canary_before = POISON, control_sum = 15, capacity = 2, size_m = 2,
             buffer = Some [7, 8 :: nat], errors = 0, canary_after = POISON\<rparr> = Return () s' \<and>
        has_error BAD_ALLOC s' \<and> errors s' = 4 \<and> capacity s' = 2 \<and>
        buffer s' = Some [7, 8] \<and> size_m s' = 2 \<and> control_sum s' = 15 \<and> live s' = [7, 8]"
  using expand_bad_alloc_frame
    [of "\<lparr>canary_before = POISON, control_sum = 15, capacity = 2, size_m = 2,
           buffer = Some [7, 8 :: nat], errors = 0, canary_after = POISON\<rparr>"]
  by (auto simp: live_def)

text \<open>
  C4, as the program has it. When the constructor's allocation fails, \<open>BAD_ALLOC\<close> is
  recorded and \<open>buffer_\<close> stays \<open>nullptr\<close>. The constructor ends with \<open>CHECK_VALIDITY\<close>:
  with \<open>STACK_SAFE_MODE\<close> defined, the report names the failed allocation (there is no
  dump of a null buffer) and the constructor itself leaves by the exception; only with
  safe mode turned off does the constructor return, and then no method ever validates.
\<close>

theorem constructor_bad_alloc_throws:
  "\<exists>s. CherepkovStack_new cfg h cap bad_alloc =
          (if STACK_SAFE_MODE cfg
           then ([Msg ''Errors found:'', Msg (error_line BAD_ALLOC)], Throw s)
           else ([], Return () s)) \<and>
        has_error BAD_ALLOC s \<and> buffer s = None \<and> size_m s = 0 \<and> capacity s = cap"
proof (cases "STACK_SAFE_MODE cfg")
  case True
  then show ?thesis
    apply (simp add: CherepkovStack_new_def CHECK_VALIDITY_def check_validity_def
        check_control_sum_def control_sum_loop_zero check_canaries_def)
    apply (simp add: print_errors_lines has_error_set_error errors_set_error_nonzero)
    apply (simp add: report_order_def has_error_def set_error_def dump_def)
    done
next
  case False
  then show ?thesis
    by (simp add: CherepkovStack_new_def CHECK_VALIDITY_def has_error_set_error)
qed

theorem constructor_bad_alloc_throws_witness:
  "\<exists>s. CherepkovStack_new as_shipped hash_nat 4 bad_alloc =
          ([Msg ''Errors found:'', Msg (error_line BAD_ALLOC)], Throw s) \<and>
        has_error BAD_ALLOC s \<and> buffer s = None \<and> size_m s = 0 \<and> capacity s = 4"
  using constructor_bad_alloc_throws [of as_shipped hash_nat 4]
  by (simp add: as_shipped_def)

theorem constructor_bad_alloc_counterexample:
  "CherepkovStack_new as_shipped hash_nat 4 bad_alloc =
     ([Msg ''Errors found:'', Msg ''Failed to allocate memory;''],
      Throw \<lparr>canary_before = POISON, control_sum = 0, capacity = 4, size_m = 0,
              buffer = None, errors = 4, canary_after = POISON\<rparr>)"
  by (simp add: CherepkovStack_new_def CHECK_VALIDITY_def check_validity_def as_shipped_def
      check_control_sum_def control_sum_loop_zero check_canaries_def set_error_def
      print_errors_def has_error_def dump_def error_line_def)

subsection \<open>Single calls on an uncorrupted instance\<close>

lemma unat_double:
  fixes c :: size_t
  assumes "unat c \<le> unat (c * 2)"
  shows "unat (c * 2) = 2 * unat c"
proof -
  have m: "unat (c * 2) = (unat c * 2) mod 2 ^ 64"
    by (simp add: unat_word_ariths)
  have b: "unat c < 2 ^ 64"
    using unsigned_less [of c, where ?'a = nat] by simp
  show ?thesis
  proof (cases "unat c * 2 < 2 ^ 64")
    case True
    then show ?thesis using m by simp
  next
    case False
    then have "(unat c * 2) mod 2 ^ 64 = unat c * 2 - 2 ^ 64"
      using b by (simp add: mod_if)
    then have "unat (c * 2) < unat c"
      using m b False by linarith
    then show ?thesis using assms by simp
  qed
qed

lemma unat_double_small:
  fixes c :: size_t
  assumes "unat c < 2 ^ 63"
  shows "unat (c * 2) = 2 * unat c"
proof -
  have "unat c * 2 < 2 ^ 64" using assms by simp
  then show ?thesis by (simp add: unat_word_ariths)
qed

lemma expand_fresh_Return:
  assumes u: "uncorrupted h s" and full: "size_m s = capacity s"
    and r: "expand (fresh j) s = Return x s'"
  shows "uncorrupted h s' \<and> live s' = live s \<and> errors s' = errors s \<and>
         size_m s' = size_m s \<and> capacity s' = capacity s * 2 \<and>
         unat (capacity s') = 2 * unat (capacity s)"
proof -
  obtain b where b: "buffer s = Some b" "length b = unat (capacity s)"
    using u by (auto simp: uncorrupted_def allocated_def split: option.splits)
  let ?nb = "block j (capacity s * 2)"
  have len: "length ?nb = unat (capacity s * 2)"
    by (simp add: block_def)
  from r full b obtain nb where
    c: "std_copy (Some b) (unat (capacity s)) ?nb = Some nb"
    and s': "s' = s\<lparr>buffer := Some nb, capacity := capacity s * 2\<rparr>"
    by (auto simp: expand_def GROWTH_FACTOR_def Let_def split: option.splits)
  have le: "unat (capacity s) \<le> unat (capacity s * 2)"
    using c b len by (auto simp: std_copy_def split: if_splits)
  have dbl: "unat (capacity s * 2) = 2 * unat (capacity s)"
    using le by (rule unat_double)
  have nb: "nb = b @ drop (unat (capacity s)) ?nb"
    using c b len le by (auto simp: std_copy_def split: if_splits)
  have lnb: "length nb = unat (capacity s * 2)"
    using nb b len dbl by simp
  have lv: "live s' = live s"
    using s' nb b full by (simp add: live_def)
  have "capacity s \<le> capacity s * 2"
    using le by (simp add: word_le_nat_alt)
  then have "uncorrupted h s'"
    using u lv s' lnb full by (simp add: uncorrupted_def allocated_def)
  then show ?thesis
    using lv s' dbl by simp
qed

lemma expand_fresh_total:
  assumes u: "uncorrupted h s" and full: "size_m s = capacity s"
    and small: "unat (capacity s) < 2 ^ 63"
  shows "\<exists>s'. expand (fresh j) s = Return () s'"
proof -
  obtain b where b: "buffer s = Some b" "length b = unat (capacity s)"
    using u by (auto simp: uncorrupted_def allocated_def split: option.splits)
  have "unat (capacity s * 2) = 2 * unat (capacity s)"
    using small by (rule unat_double_small)
  then show ?thesis
    using full b by (simp add: expand_def GROWTH_FACTOR_def Let_def std_copy_def block_def)
qed

lemma unat_succ_below:
  fixes n :: size_t
  assumes "n < c"
  shows "unat (n + 1) = Suc (unat n)"
proof -
  have "unat n < unat c" using assms by (simp add: word_less_nat_alt)
  moreover have "unat c < 2 ^ 64" using unsigned_less [of c, where ?'a = nat] by simp
  ultimately have "unat n + 1 < 2 ^ 64" by linarith
  then show ?thesis by (simp add: unat_word_ariths)
qed

text \<open>The body of \<open>push\<close> after the validation: store, count, add the hash.\<close>

lemma push_store:
  assumes u: "uncorrupted h s" and lt: "size_m s < capacity s"
  shows "\<exists>b. write_slot (buffer s) (unat (size_m s)) v = Some b \<and>
           uncorrupted h (s\<lparr>buffer := Some b, size_m := size_m s + 1,
                            control_sum := control_sum s + h v\<rparr>) \<and>
           live (s\<lparr>buffer := Some b, size_m := size_m s + 1,
                    control_sum := control_sum s + h v\<rparr>) = live s @ [v]"
proof -
  obtain b where b: "buffer s = Some b" "length b = unat (capacity s)"
    using u by (auto simp: uncorrupted_def allocated_def split: option.splits)
  have n: "unat (size_m s) < length b"
    using lt b by (simp add: word_less_nat_alt)
  have suc: "unat (size_m s + 1) = Suc (unat (size_m s))"
    using lt by (rule unat_succ_below)
  have w: "write_slot (buffer s) (unat (size_m s)) v = Some (b[unat (size_m s) := v])"
    using b n by (simp add: write_slot_def)
  let ?s' = "s\<lparr>buffer := Some (b[unat (size_m s) := v]), size_m := size_m s + 1,
                control_sum := control_sum s + h v\<rparr>"
  have lv: "live ?s' = live s @ [v]"
    using b n suc by (simp add: live_def take_Suc_conv_app_nth)
  have "size_m s + 1 \<le> capacity s"
    using lt by (rule inc_le)
  then have "uncorrupted h ?s'"
    using u lv b by (simp add: uncorrupted_def allocated_def)
  then show ?thesis using w lv by simp
qed

lemma push_Return:
  assumes u: "uncorrupted h s" and e: "errors s = 0"
    and r: "push cfg h v (fresh j) s = (out, Return x s')"
  shows "out = [] \<and> uncorrupted h s' \<and> errors s' = 0 \<and> live s' = live s @ [v] \<and>
         unat (capacity s') =
           (if size_m s = capacity s then 2 * unat (capacity s) else unat (capacity s))"
proof -
  obtain s1 where s1: "(if size_m s = capacity s then expand (fresh j) s else Return () s)
      = Return () s1"
    using r by (auto simp: push_def split: outcome.splits)
  have p1: "uncorrupted h s1 \<and> live s1 = live s \<and> errors s1 = 0 \<and>
      unat (capacity s1) =
        (if size_m s = capacity s then 2 * unat (capacity s) else unat (capacity s))"
    using s1 u e expand_fresh_Return [of h s j "()" s1] by (auto split: if_splits)
  then have cv: "CHECK_VALIDITY cfg h s1 = ([], Return () s1)"
    by (simp add: CHECK_VALIDITY_ok)
  have lt: "size_m s1 < capacity s1"
    using r s1 cv by (auto simp: push_def split: if_splits)
  obtain b where b: "write_slot (buffer s1) (unat (size_m s1)) v = Some b"
    and ub: "uncorrupted h (s1\<lparr>buffer := Some b, size_m := size_m s1 + 1,
                            control_sum := control_sum s1 + h v\<rparr>)"
    and lb: "live (s1\<lparr>buffer := Some b, size_m := size_m s1 + 1,
                    control_sum := control_sum s1 + h v\<rparr>) = live s1 @ [v]"
    using push_store [of h s1 v] p1 lt by blast
  have "out = [] \<and> s' = s1\<lparr>buffer := Some b, size_m := size_m s1 + 1,
                            control_sum := control_sum s1 + h v\<rparr>"
    using r s1 cv lt b by (simp add: push_def Let_def)
  then show ?thesis using ub lb p1 by simp
qed

lemma push_total:
  assumes u: "uncorrupted h s" and e: "errors s = 0"
    and c0: "capacity s \<noteq> 0"
    and small: "unat (size_m s) < 2 ^ 63"
  shows "\<exists>s'. push cfg h v (fresh j) s = ([], Return () s')"
proof -
  have "\<exists>s1. (if size_m s = capacity s then expand (fresh j) s else Return () s) = Return () s1"
    using expand_fresh_total [of h s j] u small by auto
  then obtain s1 where s1: "(if size_m s = capacity s then expand (fresh j) s else Return () s)
      = Return () s1" ..
  have p1: "uncorrupted h s1 \<and> live s1 = live s \<and> errors s1 = 0 \<and> size_m s1 = size_m s \<and>
      unat (capacity s1) =
        (if size_m s = capacity s then 2 * unat (capacity s) else unat (capacity s))"
    using s1 u e expand_fresh_Return [of h s j "()" s1] by (auto split: if_splits)
  then have cv: "CHECK_VALIDITY cfg h s1 = ([], Return () s1)"
    by (simp add: CHECK_VALIDITY_ok)
  have "size_m s \<le> capacity s" using u by (simp add: uncorrupted_def)
  then have "unat (size_m s) \<le> unat (capacity s)" by (simp add: word_le_nat_alt)
  moreover have "0 < unat (capacity s)" using c0 by (simp add: unat_gt_0)
  moreover have "size_m s \<noteq> capacity s \<Longrightarrow> unat (size_m s) \<noteq> unat (capacity s)"
    by (simp add: word_unat_eq_iff)
  ultimately have "unat (size_m s1) < unat (capacity s1)"
    using p1 by (auto split: if_splits)
  then have lt: "size_m s1 < capacity s1" by (simp add: word_less_nat_alt)
  obtain b where b: "write_slot (buffer s1) (unat (size_m s1)) v = Some b"
    using push_store [of h s1 v] p1 lt by blast
  show ?thesis
    using s1 cv lt b by (simp add: push_def Let_def)
qed

subsection \<open>Pop, top and empty on an uncorrupted instance\<close>

lemma pop_remove:
  assumes u: "uncorrupted h s" and ne: "size_m s \<noteq> 0"
  shows "\<exists>x. read_slot (buffer s) (unat (size_m s - 1)) = Some x \<and>
           live s = butlast (live s) @ [x] \<and>
           uncorrupted h (s\<lparr>control_sum := control_sum s - h x, size_m := size_m s - 1\<rparr>) \<and>
           live (s\<lparr>control_sum := control_sum s - h x, size_m := size_m s - 1\<rparr>)
             = butlast (live s)"
proof -
  obtain b where b: "buffer s = Some b" "length b = unat (capacity s)"
    using u by (auto simp: uncorrupted_def allocated_def split: option.splits)
  have le: "unat (size_m s) \<le> length b"
    using u b by (simp add: uncorrupted_def word_le_nat_alt)
  have pos: "0 < unat (size_m s)"
    using ne by (simp add: unat_gt_0)
  have m1: "unat (size_m s - 1) = unat (size_m s) - 1"
    using ne by (rule unat_minus_one)
  let ?x = "b ! (unat (size_m s) - 1)"
  let ?s' = "s\<lparr>control_sum := control_sum s - h ?x, size_m := size_m s - 1\<rparr>"
  have rd: "read_slot (buffer s) (unat (size_m s - 1)) = Some ?x"
    using b le pos m1 by (simp add: read_slot_def)
  have lv': "live ?s' = butlast (live s)"
    using b le m1 by (simp add: live_def butlast_take)
  have "take (unat (size_m s)) b = take (unat (size_m s) - 1) b @ [?x]"
    using le pos take_Suc_conv_app_nth [of "unat (size_m s) - 1" b] by simp
  then have lv: "live s = butlast (live s) @ [?x]"
    using b le by (simp add: live_def butlast_take)
  have "sum_list (map h (live s)) = sum_list (map h (butlast (live s))) + h ?x"
    by (subst lv) simp
  then have cs: "control_sum ?s' = sum_list (map h (live ?s'))"
    using u lv' by (simp add: uncorrupted_def)
  have "size_m s - 1 \<le> size_m s"
    using m1 by (simp add: word_le_nat_alt)
  then have "size_m s - 1 \<le> capacity s"
    using u by (auto simp: uncorrupted_def)
  then have "uncorrupted h ?s'"
    using u cs b by (simp add: uncorrupted_def allocated_def)
  then show ?thesis using rd lv lv' by blast
qed

lemma pop_nonempty:
  assumes u: "uncorrupted h s" and e: "errors s = 0" and ne: "size_m s \<noteq> 0"
  shows "\<exists>s'. pop cfg h s = ([], Return () s') \<and> uncorrupted h s' \<and> errors s' = 0 \<and>
           live s' = butlast (live s) \<and> capacity s' = capacity s \<and>
           size_m s' = size_m s - 1 \<and> control_sum s' = control_sum s - h (last (live s))"
proof -
  obtain x where x: "read_slot (buffer s) (unat (size_m s - 1)) = Some x"
    and lv: "live s = butlast (live s) @ [x]"
    and u': "uncorrupted h (s\<lparr>control_sum := control_sum s - h x, size_m := size_m s - 1\<rparr>)"
    and lv': "live (s\<lparr>control_sum := control_sum s - h x, size_m := size_m s - 1\<rparr>)
             = butlast (live s)"
    using pop_remove [OF u ne] by blast
  have lx: "last (live s) = x"
    by (subst lv) simp
  have "pop cfg h s = ([], Return () (s\<lparr>control_sum := control_sum s - h x,
                                         size_m := size_m s - 1\<rparr>))"
    using ne x u' e by (simp add: pop_def Let_def CHECK_VALIDITY_ok)
  then show ?thesis using u' lv' e lx by simp
qed

lemma size_zero_iff_live:
  assumes "uncorrupted h s"
  shows "size_m s = 0 \<longleftrightarrow> live s = []"
proof -
  obtain b where b: "buffer s = Some b" "length b = unat (capacity s)"
    using assms by (auto simp: uncorrupted_def allocated_def split: option.splits)
  have le: "unat (size_m s) \<le> length b"
    using assms b by (simp add: uncorrupted_def word_le_nat_alt)
  have "live s = [] \<longleftrightarrow> unat (size_m s) = 0"
    using b le by (auto simp: live_def)
  then show ?thesis by (simp add: unat_eq_0)
qed

lemma length_live:
  assumes "uncorrupted h s"
  shows "length (live s) = unat (size_m s)"
proof -
  obtain b where b: "buffer s = Some b" "length b = unat (capacity s)"
    using assms by (auto simp: uncorrupted_def allocated_def split: option.splits)
  have le: "unat (size_m s) \<le> length b"
    using assms b by (simp add: uncorrupted_def word_le_nat_alt)
  then show ?thesis using b by (simp add: live_def)
qed

lemma top_nonempty:
  assumes u: "uncorrupted h s" and e: "errors s = 0" and ne: "size_m s \<noteq> 0"
  shows "top cfg h s = ([], Return (last (live s)) s)"
proof -
  obtain x where x: "read_slot (buffer s) (unat (size_m s - 1)) = Some x"
    and lv: "live s = butlast (live s) @ [x]"
    using pop_remove [OF u ne] by blast
  have lx: "last (live s) = x"
    by (subst lv) simp
  show ?thesis
    using ne x u e lx by (simp add: top_def CHECK_VALIDITY_ok)
qed

lemma empty_ok:
  assumes u: "uncorrupted h s" and e: "errors s = 0"
  shows "empty cfg h s = ([], Return (size_m s = 0) s)"
  using u e by (simp add: empty_def CHECK_VALIDITY_ok)

text \<open>
  C10. On an uncorrupted instance with no error bit set and \<open>size_ < capacity_\<close>, a push
  (whatever the allocator would do) returns, the pop that follows returns, and afterwards
  size, checksum and live elements are what they were before the push, with no error
  bit set. Nothing is written to \<open>stderr\<close>. The by-move overload does as the by-copy one
  when the move assignment of the value is defined.
\<close>

theorem push_then_pop_restores:
  assumes "uncorrupted h s" and "errors s = 0" and "size_m s < capacity s"
  shows "\<exists>s1 s2. push cfg h v a s = ([], Return () s1) \<and>
           ((\<forall>old. mv old v) \<longrightarrow> push_rvalue cfg h mv v a s = ([], Return () s1)) \<and>
           pop cfg h s1 = ([], Return () s2) \<and>
           size_m s2 = size_m s \<and> control_sum s2 = control_sum s \<and> live s2 = live s \<and>
           errors s2 = 0 \<and> uncorrupted h s2"
proof -
  obtain b where b: "write_slot (buffer s) (unat (size_m s)) v = Some b"
    and u1: "uncorrupted h (s\<lparr>buffer := Some b, size_m := size_m s + 1,
                            control_sum := control_sum s + h v\<rparr>)"
    and l1: "live (s\<lparr>buffer := Some b, size_m := size_m s + 1,
                    control_sum := control_sum s + h v\<rparr>) = live s @ [v]"
    using push_store [OF assms(1) assms(3)] by blast
  let ?s1 = "s\<lparr>buffer := Some b, size_m := size_m s + 1, control_sum := control_sum s + h v\<rparr>"
  have ne: "size_m s \<noteq> capacity s" using assms(3) by auto
  have p: "push cfg h v a s = ([], Return () ?s1)"
    using ne assms b by (simp add: push_def CHECK_VALIDITY_ok Let_def)
  have e1: "errors ?s1 = 0" using assms(2) by simp
  have "unat (size_m s + 1) = Suc (unat (size_m s))"
    using assms(3) by (rule unat_succ_below)
  then have "unat (size_m s + 1) \<noteq> 0" by simp
  then have n1: "size_m ?s1 \<noteq> 0" by auto
  obtain s2 where q: "pop cfg h ?s1 = ([], Return () s2)" and u2: "uncorrupted h s2"
    and e2: "errors s2 = 0" and l2: "live s2 = butlast (live ?s1)"
    and z2: "size_m s2 = size_m ?s1 - 1"
    and c2: "control_sum s2 = control_sum ?s1 - h (last (live ?s1))"
    using pop_nonempty [OF u1 e1 n1, of cfg] by blast
  have "control_sum s2 = control_sum s" using c2 l1 by simp
  moreover have "live s2 = live s" using l2 l1 by simp
  moreover have "size_m s2 = size_m s" using z2 by simp
  ultimately show ?thesis
    using p q e2 u2 by (auto simp: push_rvalue_eq_push)
qed

theorem push_then_pop_restores_witness:
  "uncorrupted hash_nat
     \<lparr>canary_before = POISON, control_sum = 7, capacity = 2, size_m = 1,
        buffer = Some [7, 0], errors = 0, canary_after = POISON\<rparr> \<and>
   (\<exists>s1 s2. push as_shipped hash_nat 8 bad_alloc
             \<lparr>canary_before = POISON, control_sum = 7, capacity = 2, size_m = 1,
                buffer = Some [7, 0], errors = 0, canary_after = POISON\<rparr> = ([], Return () s1) \<and>
           push_rvalue as_shipped hash_nat scalar_move 8 bad_alloc
             \<lparr>canary_before = POISON, control_sum = 7, capacity = 2, size_m = 1,
                buffer = Some [7, 0], errors = 0, canary_after = POISON\<rparr> = ([], Return () s1) \<and>
           pop as_shipped hash_nat s1 = ([], Return () s2) \<and>
           size_m s2 = 1 \<and> control_sum s2 = 7 \<and> live s2 = [7] \<and> errors s2 = 0)"
proof -
  let ?s = "\<lparr>canary_before = POISON, control_sum = 7, capacity = 2, size_m = 1,
        buffer = Some [7, 0 :: nat], errors = 0, canary_after = POISON\<rparr>"
  have u: "uncorrupted hash_nat ?s"
    by (simp add: uncorrupted_def allocated_def live_def hash_nat_def)
  have l: "live ?s = [7]" by (simp add: live_def)
  show ?thesis
    using u l push_then_pop_restores [of hash_nat ?s as_shipped 8 bad_alloc scalar_move]
    by (auto simp: scalar_move_def)
qed

subsection \<open>The report\<close>

lemma report_order_complete: "distinct report_order \<and> set report_order = UNIV"
proof -
  have "e \<in> set report_order" for e
    by (cases e) (simp_all add: report_order_def)
  then show ?thesis by (auto simp: report_order_def)
qed




subsection \<open>Error bits are only ever added\<close>

lemma has_error_bit:
  "has_error e s \<longleftrightarrow> bit (errors s) (case e of
      POP_FROM_EMPTY_STACK \<Rightarrow> 1 | BAD_ALLOC \<Rightarrow> 2 | WRONG_CONTROL_SUM \<Rightarrow> 3
    | CANARY_BEFORE_CORRUPTED \<Rightarrow> 4 | CANARY_AFTER_CORRUPTED \<Rightarrow> 5 | TOP_FROM_EMPTY_STACK \<Rightarrow> 6)"
  using and_exp_eq_0_iff_not_bit [of "errors s" 1] and_exp_eq_0_iff_not_bit [of "errors s" 2]
    and_exp_eq_0_iff_not_bit [of "errors s" 3] and_exp_eq_0_iff_not_bit [of "errors s" 4]
    and_exp_eq_0_iff_not_bit [of "errors s" 5] and_exp_eq_0_iff_not_bit [of "errors s" 6]
  by (cases e) (simp_all add: has_error_def)

lemma set_error_keeps: "bit (errors s) n \<Longrightarrow> bit (errors (set_error e s)) n"
  by (simp add: set_error_def bit_or_iff)

lemma check_control_sum_keeps:
  "check_control_sum h s = Some s1 \<Longrightarrow> bit (errors s) n \<Longrightarrow> bit (errors s1) n"
  by (auto simp: check_control_sum_def set_error_keeps split: option.splits if_splits)

lemma check_canaries_keeps: "bit (errors s) n \<Longrightarrow> bit (errors (check_canaries s)) n"
  by (simp add: check_canaries_def Let_def set_error_keeps)

lemma print_errors_state:
  "print_errors cfg s = (out, oc) \<Longrightarrow> state_of oc = Some s' \<Longrightarrow> s' = s"
  by (cases "errors s = 0")
    (auto simp: print_errors_zero print_errors_lines state_of_def
      split: if_splits option.splits)

lemma CHECK_VALIDITY_keeps:
  assumes "CHECK_VALIDITY cfg h s = (out, oc)" and "state_of oc = Some s'"
    and "bit (errors s) n"
  shows "bit (errors s') n"
proof (cases "STACK_SAFE_MODE cfg")
  case True
  then obtain s1 where s1: "check_control_sum h s = Some s1"
    and p: "print_errors cfg (check_canaries s1) = (out, oc)"
    using assms(1,2)
    by (auto simp: CHECK_VALIDITY_def check_validity_def state_of_def split: option.splits)
  have "s' = check_canaries s1"
    using p assms(2) by (rule print_errors_state)
  then show ?thesis
    using s1 assms(3) by (simp add: check_canaries_keeps check_control_sum_keeps)
next
  case False
  then show ?thesis
    using assms by (auto simp: CHECK_VALIDITY_def state_of_def)
qed

lemma expand_keeps:
  "expand a s = oc \<Longrightarrow> state_of oc = Some s' \<Longrightarrow> bit (errors s) n \<Longrightarrow> bit (errors s') n"
  by (auto simp: expand_def Let_def state_of_def set_error_keeps
      split: if_splits alloc_result.splits option.splits)

lemma empty_keeps:
  assumes "empty cfg h s = (out, oc)" and "state_of oc = Some s'" and "bit (errors s) n"
  shows "bit (errors s') n"
proof -
  obtain oc0 where c: "CHECK_VALIDITY cfg h s = (out, oc0)" and st: "state_of oc0 = Some s'"
    using assms(1,2)
    by (auto simp: empty_def state_of_def split: prod.splits outcome.splits)
  show ?thesis using c st assms(3) by (rule CHECK_VALIDITY_keeps)
qed

lemma pop_keeps:
  assumes "pop cfg h s = (out, oc)" and "state_of oc = Some s'" and "bit (errors s) n"
  shows "bit (errors s') n"
proof (cases "size_m s = 0")
  case True
  then have c: "CHECK_VALIDITY cfg h (set_error POP_FROM_EMPTY_STACK s) = (out, oc)"
    using assms(1) by (simp add: pop_def)
  show ?thesis
    using c assms(2) set_error_keeps [OF assms(3)] by (rule CHECK_VALIDITY_keeps)
next
  case False
  then obtain x where
    c: "CHECK_VALIDITY cfg h (s\<lparr>control_sum := control_sum s - h x, size_m := size_m s - 1\<rparr>)
        = (out, oc)"
    using assms(1,2) by (auto simp: pop_def Let_def state_of_def split: option.splits)
  have "bit (errors (s\<lparr>control_sum := control_sum s - h x, size_m := size_m s - 1\<rparr>)) n"
    using assms(3) by simp
  with c assms(2) show ?thesis by (rule CHECK_VALIDITY_keeps)
qed

lemma top_keeps:
  assumes "top cfg h s = (out, oc)" and "state_of oc = Some s'" and "bit (errors s) n"
  shows "bit (errors s') n"
proof -
  let ?s0 = "if size_m s = 0 then set_error TOP_FROM_EMPTY_STACK s else s"
  obtain oc0 where c: "CHECK_VALIDITY cfg h ?s0 = (out, oc0)" and st: "state_of oc0 = Some s'"
    using assms(1,2)
    by (auto simp: top_def Let_def state_of_def split: prod.splits outcome.splits option.splits)
  have "bit (errors ?s0) n"
    using assms(3) by (simp add: set_error_keeps)
  with c st show ?thesis by (rule CHECK_VALIDITY_keeps)
qed

lemma push_keeps:
  assumes "push cfg h v a s = (out, oc)" and "state_of oc = Some s'" and "bit (errors s) n"
  shows "bit (errors s') n"
proof -
  let ?e = "if size_m s = capacity s then expand a s else Return () s"
  obtain s1 where e: "?e = Return () s1"
    using assms(1,2) by (cases ?e) (auto simp: push_def state_of_def expand_def Let_def
        split: if_splits alloc_result.splits option.splits)
  have b1: "bit (errors s1) n"
    using e assms(3) expand_keeps [of a s "Return () s1" s1 n]
    by (auto simp: state_of_def split: if_splits)
  obtain out0 oc0 where c: "CHECK_VALIDITY cfg h s1 = (out0, oc0)"
    by (cases "CHECK_VALIDITY cfg h s1")
  show ?thesis
  proof (cases oc0)
    case (Return x s2)
    then have b2: "bit (errors s2) n"
      using CHECK_VALIDITY_keeps [OF c _ b1] by (simp add: state_of_def)
    show ?thesis
      using assms(1,2) e c Return b2
      by (auto simp: push_def Let_def state_of_def split: if_splits option.splits)
  next
    case (Throw s2)
    then have b2: "bit (errors s2) n"
      using CHECK_VALIDITY_keeps [OF c _ b1] by (simp add: state_of_def)
    show ?thesis
      using assms(1,2) e c Throw b2 by (auto simp: push_def state_of_def)
  next
    case AssertFail
    then show ?thesis using assms(1,2) e c by (auto simp: push_def state_of_def)
  next
    case Undefined
    then show ?thesis using assms(1,2) e c by (auto simp: push_def state_of_def)
  qed
qed

lemma state_of_map_outcome [simp]: "state_of (map_outcome f id oc) = state_of oc"
  by (cases oc) (simp_all add: state_of_def)

lemma call_keeps:
  assumes "state_of (snd (call cfg h mv op s)) = Some s'" and "bit (errors s) n"
  shows "bit (errors s') n"
proof (cases op)
  case Op_empty
  then show ?thesis
    using assms empty_keeps [of cfg h s _ _ s' n]
    by (cases "empty cfg h s") (simp add: call_def)
next
  case Op_pop
  then show ?thesis
    using assms pop_keeps [of cfg h s _ _ s' n]
    by (cases "pop cfg h s") (simp add: call_def)
next
  case Op_top
  then show ?thesis
    using assms top_keeps [of cfg h s _ _ s' n]
    by (cases "top cfg h s") (simp add: call_def)
next
  case (Op_push v a)
  then show ?thesis
    using assms push_keeps [of cfg h v a s _ _ s' n]
    by (cases "push cfg h v a s") (simp add: call_def)
next
  case (Op_push_rvalue v a)
  show ?thesis
  proof (cases "push_rvalue cfg h mv v a s = push cfg h v a s")
    case True
    then show ?thesis
      using Op_push_rvalue assms push_keeps [of cfg h v a s _ _ s' n]
      by (cases "push cfg h v a s") (simp add: call_def)
  next
    case False
    then have "snd (push_rvalue cfg h mv v a s) = Undefined"
      using push_rvalue_cases [of cfg h mv v a s] by blast
    then show ?thesis
      using Op_push_rvalue assms
      by (cases "push_rvalue cfg h mv v a s") (simp add: call_def state_of_def)
  qed
qed

lemma run_keeps:
  "r \<in> set (run cfg h mv ops s) \<Longrightarrow> state_of (snd r) = Some s' \<Longrightarrow> bit (errors s) n
     \<Longrightarrow> bit (errors s') n"
proof (induction ops arbitrary: s)
  case Nil
  then show ?case by simp
next
  case (Cons op ops)
  show ?case
  proof (cases "r = call cfg h mv op s")
    case True
    then show ?thesis using Cons.prems call_keeps by blast
  next
    case False
    then obtain s1 where s1: "state_of (snd (call cfg h mv op s)) = Some s1"
      and r: "r \<in> set (run cfg h mv ops s1)"
      using Cons.prems(1)
      by (cases "state_of (snd (call cfg h mv op s))") (auto simp: Let_def)
    have "bit (errors s1) n"
      using s1 Cons.prems(3) by (rule call_keeps)
    with r Cons.prems(2) show ?thesis by (rule Cons.IH)
  qed
qed

text \<open>
  C7. Over any sequence of calls of the public methods on an instance, in either mode
  and whatever the state of the instance: an error whose bit is set before the sequence
  has its bit set in the state every call of the sequence leaves behind, whether the
  call returned or left by the exception. The same holds for every bit of \<open>errors_\<close>.
\<close>

theorem error_bits_sticky:
  assumes "r \<in> set (run cfg h mv ops s)" and "state_of (snd r) = Some s'"
  shows "(has_error e s \<longrightarrow> has_error e s') \<and> (bit (errors s) n \<longrightarrow> bit (errors s') n)"
  using assms run_keeps [of r cfg h mv ops s s'] by (auto simp: has_error_bit)

theorem error_bits_sticky_witness:
  "([Msg ''Errors found:'', Msg ''Pop from empty stack was performed;'',
     Msg ''Top from empty stack was performed;'', DumpBegin 1, DumpSlot 0 0, DumpEnd 0],
    Throw \<lparr>canary_before = POISON, control_sum = 0, capacity = 1, size_m = 0,
       buffer = Some [0 :: nat], errors = 66, canary_after = POISON\<rparr>)
     \<in> set (run as_shipped hash_nat scalar_move [Op_top]
         \<lparr>canary_before = POISON, control_sum = 0, capacity = 1, size_m = 0,
            buffer = Some [0 :: nat], errors = 2, canary_after = POISON\<rparr>) \<and>
   has_error POP_FROM_EMPTY_STACK
     \<lparr>canary_before = POISON, control_sum = 0, capacity = 1, size_m = 0,
        buffer = Some [0 :: nat], errors = 2, canary_after = POISON\<rparr> \<and>
   has_error POP_FROM_EMPTY_STACK
     \<lparr>canary_before = POISON, control_sum = 0, capacity = 1, size_m = 0,
        buffer = Some [0 :: nat], errors = 66, canary_after = POISON\<rparr>"
proof -
  let ?s = "\<lparr>canary_before = POISON, control_sum = 0, capacity = 1, size_m = 0,
            buffer = Some [0 :: nat], errors = 2, canary_after = POISON\<rparr>"
  let ?s' = "\<lparr>canary_before = POISON, control_sum = 0, capacity = 1, size_m = 0,
            buffer = Some [0 :: nat], errors = 66, canary_after = POISON\<rparr>"
  let ?r = "([Msg ''Errors found:'', Msg ''Pop from empty stack was performed;'',
     Msg ''Top from empty stack was performed;'', DumpBegin 1, DumpSlot 0 0, DumpEnd 0],
    Throw ?s') :: (nat ret, nat) result"
  have t: "top as_shipped hash_nat ?s = (fst ?r, Throw ?s')"
    by (simp add: top_def CHECK_VALIDITY_def check_validity_def as_shipped_def
        check_control_sum_def control_sum_loop_zero check_canaries_def set_error_def
        print_errors_def has_error_def dump_def dump_loop.simps read_slot_def error_line_def)
  have m: "?r \<in> set (run as_shipped hash_nat scalar_move [Op_top] ?s)"
    by (simp add: call_def t)
  have st: "state_of (snd ?r) = Some ?s'"
    by (simp add: state_of_def)
  have "has_error POP_FROM_EMPTY_STACK ?s"
    by (simp add: has_error_def)
  then show ?thesis
    using m error_bits_sticky [OF m st, of POP_FROM_EMPTY_STACK 1] by simp
qed

subsection \<open>Validation with a bit set\<close>

lemma check_control_sum_in_bounds:
  assumes "allocated s" and "size_m s \<le> capacity s"
  shows "\<exists>s1. check_control_sum h s = Some s1 \<and> s1 = s\<lparr>errors := errors s1\<rparr>"
proof -
  obtain b where b: "buffer s = Some b" "length b = unat (capacity s)"
    using assms(1) by (auto simp: allocated_def split: option.splits)
  have "unat (size_m s) \<le> length b"
    using assms(2) b by (simp add: word_le_nat_alt)
  then show ?thesis
    using b by (simp add: check_control_sum_def control_sum_loop_Some set_error_def)
qed

lemma check_canaries_frame: "check_canaries s = s\<lparr>errors := errors (check_canaries s)\<rparr>"
  by (simp add: check_canaries_def set_error_def)

lemma errors_nonzero_bit: "(errors s \<noteq> 0) = (\<exists>n. bit (errors s) n)"
proof
  assume "errors s \<noteq> 0"
  then show "\<exists>n. bit (errors s) n"
    by (auto simp: bit_eq_iff)
next
  assume "\<exists>n. bit (errors s) n"
  then show "errors s \<noteq> 0"
    by auto
qed

lemma check_validity_throws:
  assumes al: "allocated s" and le: "size_m s \<le> capacity s" and nz: "errors s \<noteq> 0"
  shows "\<exists>out s'. check_validity cfg h s = (Msg ''Errors found:'' # out, Throw s') \<and>
           s' = s\<lparr>errors := errors s'\<rparr> \<and>
           (\<forall>e. has_error e s \<longrightarrow> has_error e s' \<and> Msg (error_line e) \<in> set out)"
proof -
  obtain s1 where s1: "check_control_sum h s = Some s1" and f1: "s1 = s\<lparr>errors := errors s1\<rparr>"
    using check_control_sum_in_bounds [OF al le] by blast
  let ?s2 = "check_canaries s1"
  have f2: "?s2 = s\<lparr>errors := errors ?s2\<rparr>"
    by (subst check_canaries_frame, subst f1) simp
  have keep: "bit (errors s) n \<Longrightarrow> bit (errors ?s2) n" for n
    using s1 by (simp add: check_canaries_keeps check_control_sum_keeps)
  then have nz2: "errors ?s2 \<noteq> 0"
    using nz by (auto simp: errors_nonzero_bit)
  have keep_e: "has_error e s \<Longrightarrow> has_error e ?s2" for e
    using keep by (simp add: has_error_bit)
  have "allocated ?s2"
    using al by (subst f2) (simp add: allocated_def split: option.splits)
  then obtain d where d: "dump ?s2 = Some d"
    using dump_allocated by blast
  let ?lines = "map (\<lambda>e. Msg (error_line e)) (filter (\<lambda>e. has_error e ?s2) report_order)"
  let ?out = "?lines @ (if STACK_ENABLE_DUMP cfg then d else [])"
  have p: "check_validity cfg h s = (Msg ''Errors found:'' # ?out, Throw ?s2)"
    using s1 nz2 d by (simp add: check_validity_def print_errors_lines)
  have "has_error e s \<Longrightarrow> Msg (error_line e) \<in> set ?out" for e
    using keep_e [of e] report_order_complete by auto
  then show ?thesis
    using p f2 keep_e by blast
qed

text \<open>
  C5. In safe mode, on an instance with \<open>size_ == 0\<close> whose buffer is a block of
  \<open>capacity_\<close> slots, \<open>top\<close> does not return: it records \<open>TOP_FROM_EMPTY_STACK\<close>, the
  report names it, and the call leaves by the exception thrown in the validation, before
  the read of \<open>buffer_[size_ - 1]\<close>. Only the error bits of the object change.
\<close>

theorem top_on_empty_throws:
  assumes "STACK_SAFE_MODE cfg" and "size_m s = 0" and "allocated s"
  shows "\<exists>out s'. top cfg h s = (Msg ''Errors found:'' # out, Throw s') \<and>
           has_error TOP_FROM_EMPTY_STACK s' \<and>
           Msg (error_line TOP_FROM_EMPTY_STACK) \<in> set out \<and>
           s' = s\<lparr>errors := errors s'\<rparr>"
proof -
  let ?s0 = "set_error TOP_FROM_EMPTY_STACK s"
  have "allocated ?s0" "size_m ?s0 \<le> capacity ?s0" "errors ?s0 \<noteq> 0"
    using assms by (simp_all add: errors_set_error_nonzero)
  then obtain out s' where
    c: "check_validity cfg h ?s0 = (Msg ''Errors found:'' # out, Throw s')"
    and f: "s' = ?s0\<lparr>errors := errors s'\<rparr>"
    and k: "\<forall>e. has_error e ?s0 \<longrightarrow> has_error e s' \<and> Msg (error_line e) \<in> set out"
    using check_validity_throws [of ?s0 cfg h] by blast
  have t: "top cfg h s = (Msg ''Errors found:'' # out, Throw s')"
    using assms(1,2) c by (simp add: top_def CHECK_VALIDITY_def)
  have "s' = s\<lparr>errors := errors s'\<rparr>"
    by (subst f) (simp add: set_error_def)
  then show ?thesis
    using t k has_error_set_error [of TOP_FROM_EMPTY_STACK s] by blast
qed

theorem top_on_empty_throws_witness:
  "STACK_SAFE_MODE as_shipped \<and>
   allocated \<lparr>canary_before = POISON, control_sum = 0, capacity = 1, size_m = 0,
               buffer = Some [0 :: nat], errors = 0, canary_after = POISON\<rparr> \<and>
   (\<exists>out s'. top as_shipped hash_nat
               \<lparr>canary_before = POISON, control_sum = 0, capacity = 1, size_m = 0,
                  buffer = Some [0 :: nat], errors = 0, canary_after = POISON\<rparr>
             = (Msg ''Errors found:'' # out, Throw s') \<and>
            has_error TOP_FROM_EMPTY_STACK s' \<and>
            Msg (error_line TOP_FROM_EMPTY_STACK) \<in> set out)"
proof -
  let ?s = "\<lparr>canary_before = POISON, control_sum = 0, capacity = 1, size_m = 0,
               buffer = Some [0 :: nat], errors = 0, canary_after = POISON\<rparr>"
  have a: "STACK_SAFE_MODE as_shipped" by (simp add: as_shipped_def)
  have b: "size_m ?s = 0" by simp
  have c: "allocated ?s" by (simp add: allocated_def)
  show ?thesis
    using a c top_on_empty_throws [OF a b c, of hash_nat] by blast
qed

subsection \<open>The empty instance after a failed pop\<close>

lemma CHECK_VALIDITY_poisoned_empty:
  assumes safe: "STACK_SAFE_MODE cfg" and al: "allocated s" and z: "size_m s = 0"
    and p: "has_error POP_FROM_EMPTY_STACK s"
  shows "\<exists>out s'. CHECK_VALIDITY cfg h s = (Msg ''Errors found:'' # out, Throw s') \<and>
           Msg (error_line POP_FROM_EMPTY_STACK) \<in> set out \<and>
           allocated s' \<and> size_m s' = 0 \<and> has_error POP_FROM_EMPTY_STACK s'"
proof -
  have nz: "errors s \<noteq> 0" using p by (auto simp: has_error_def)
  have le: "size_m s \<le> capacity s" using z by simp
  obtain out s' where
    c: "check_validity cfg h s = (Msg ''Errors found:'' # out, Throw s')"
    and f: "s' = s\<lparr>errors := errors s'\<rparr>"
    and k: "\<forall>e. has_error e s \<longrightarrow> has_error e s' \<and> Msg (error_line e) \<in> set out"
    using check_validity_throws [OF al le nz, of cfg h] by blast
  have "allocated s'" "size_m s' = 0"
    using al z by (subst f, simp add: allocated_def split: option.splits)+
  then show ?thesis
    using safe c k p by (auto simp: CHECK_VALIDITY_def)
qed

lemma expand_on_empty:
  assumes al: "allocated s" and z: "size_m s = 0" and full: "size_m s = capacity s"
    and p: "has_error POP_FROM_EMPTY_STACK s"
  shows "\<exists>s1. expand a s = Return () s1 \<and> allocated s1 \<and> size_m s1 = 0 \<and>
           has_error POP_FROM_EMPTY_STACK s1"
proof (cases a)
  case bad_alloc
  then show ?thesis
    using assms by (simp add: expand_def has_error_set_error_other)
next
  case (fresh j)
  have "capacity s = 0" using z full by simp
  then show ?thesis
    using fresh assms
    by (simp add: expand_def GROWTH_FACTOR_def std_copy_def block_def allocated_def
        has_error_def)
qed

lemma push_poisoned_empty:
  assumes safe: "STACK_SAFE_MODE cfg" and al: "allocated s" and z: "size_m s = 0"
    and p: "has_error POP_FROM_EMPTY_STACK s"
  shows "\<exists>out s'. push cfg h v a s = (Msg ''Errors found:'' # out, Throw s') \<and>
           Msg (error_line POP_FROM_EMPTY_STACK) \<in> set out \<and>
           allocated s' \<and> size_m s' = 0 \<and> has_error POP_FROM_EMPTY_STACK s'"
proof -
  have "\<exists>s1. (if size_m s = capacity s then expand a s else Return () s) = Return () s1 \<and>
          allocated s1 \<and> size_m s1 = 0 \<and> has_error POP_FROM_EMPTY_STACK s1"
    using expand_on_empty [OF al z _ p, of a] al z p by auto
  then obtain s1 where
    e: "(if size_m s = capacity s then expand a s else Return () s) = Return () s1"
    and al1: "allocated s1" and z1: "size_m s1 = 0" and p1: "has_error POP_FROM_EMPTY_STACK s1"
    by blast
  obtain out s' where
    c: "CHECK_VALIDITY cfg h s1 = (Msg ''Errors found:'' # out, Throw s')"
    and r: "Msg (error_line POP_FROM_EMPTY_STACK) \<in> set out \<and>
           allocated s' \<and> size_m s' = 0 \<and> has_error POP_FROM_EMPTY_STACK s'"
    using CHECK_VALIDITY_poisoned_empty [OF safe al1 z1 p1, of h] by blast
  have "push cfg h v a s = (Msg ''Errors found:'' # out, Throw s')"
    using e c by (simp add: push_def)
  then show ?thesis using r by blast
qed

lemma call_poisoned_empty:
  assumes safe: "STACK_SAFE_MODE cfg" and al: "allocated s" and z: "size_m s = 0"
    and p: "has_error POP_FROM_EMPTY_STACK s"
  shows "\<exists>out s'. call cfg h mv op s = (Msg ''Errors found:'' # out, Throw s') \<and>
           Msg (error_line POP_FROM_EMPTY_STACK) \<in> set out \<and>
           allocated s' \<and> size_m s' = 0 \<and> has_error POP_FROM_EMPTY_STACK s'"
proof (cases op)
  case Op_empty
  then show ?thesis
    using CHECK_VALIDITY_poisoned_empty [OF safe al z p, of h]
    by (auto simp: call_def empty_def)
next
  case Op_pop
  have "has_error POP_FROM_EMPTY_STACK (set_error POP_FROM_EMPTY_STACK s)"
    by (rule has_error_set_error)
  then show ?thesis
    using Op_pop z al
      CHECK_VALIDITY_poisoned_empty [OF safe, of "set_error POP_FROM_EMPTY_STACK s" h]
    by (auto simp: call_def pop_def)
next
  case Op_top
  have "has_error POP_FROM_EMPTY_STACK (set_error TOP_FROM_EMPTY_STACK s)"
    using p by (rule has_error_set_error_other)
  then show ?thesis
    using Op_top z al
      CHECK_VALIDITY_poisoned_empty [OF safe, of "set_error TOP_FROM_EMPTY_STACK s" h]
    by (auto simp: call_def top_def)
next
  case (Op_push v a)
  then show ?thesis
    using push_poisoned_empty [OF safe al z p, of h v a] by (auto simp: call_def)
next
  case (Op_push_rvalue v a)
  obtain out s' where t: "push cfg h v a s = (Msg ''Errors found:'' # out, Throw s')"
    and r: "Msg (error_line POP_FROM_EMPTY_STACK) \<in> set out \<and>
           allocated s' \<and> size_m s' = 0 \<and> has_error POP_FROM_EMPTY_STACK s'"
    using push_poisoned_empty [OF safe al z p, of h v a] by blast
  have "push_rvalue cfg h mv v a s = push cfg h v a s"
    using push_rvalue_cases [of cfg h mv v a s] t by auto
  then show ?thesis
    using Op_push_rvalue t r by (auto simp: call_def)
qed

lemma run_poisoned_empty:
  assumes safe: "STACK_SAFE_MODE cfg"
  shows "allocated s \<Longrightarrow> size_m s = 0 \<Longrightarrow> has_error POP_FROM_EMPTY_STACK s \<Longrightarrow>
         length (run cfg h mv ops s) = length ops \<and>
         (\<forall>r \<in> set (run cfg h mv ops s). \<exists>out s'.
            r = (Msg ''Errors found:'' # out, Throw s') \<and>
            Msg (error_line POP_FROM_EMPTY_STACK) \<in> set out \<and>
            has_error POP_FROM_EMPTY_STACK s')"
proof (induction ops arbitrary: s)
  case Nil
  show ?case by simp
next
  case (Cons op ops)
  obtain out s' where
    c: "call cfg h mv op s = (Msg ''Errors found:'' # out, Throw s')"
    and m: "Msg (error_line POP_FROM_EMPTY_STACK) \<in> set out"
    and al: "allocated s'" and z: "size_m s' = 0" and p: "has_error POP_FROM_EMPTY_STACK s'"
    using call_poisoned_empty [OF safe Cons.prems, of h mv op] by blast
  have r: "run cfg h mv (op # ops) s = (Msg ''Errors found:'' # out, Throw s') # run cfg h mv ops s'"
    using c by (simp add: state_of_def)
  show ?case
    unfolding r using Cons.IH [OF al z p] m p by simp
qed

text \<open>
  C2. In safe mode, on an instance with \<open>size_ == 0\<close> whose buffer is a block of
  \<open>capacity_\<close> slots, \<open>pop\<close> sets \<open>POP_FROM_EMPTY_STACK\<close> and leaves by the exception
  thrown in the validation that follows, after a report that names the error. From then
  on every call of every public method, in any sequence, is carried out, writes a report
  that names the error again, and leaves by the exception again.
\<close>

theorem pop_on_empty_poisons:
  assumes "STACK_SAFE_MODE cfg" and "size_m s = 0" and "allocated s"
  shows "\<exists>out s'. pop cfg h s = (Msg ''Errors found:'' # out, Throw s') \<and>
           has_error POP_FROM_EMPTY_STACK s' \<and>
           Msg (error_line POP_FROM_EMPTY_STACK) \<in> set out \<and>
           (\<forall>ops. length (run cfg h mv ops s') = length ops \<and>
              (\<forall>r \<in> set (run cfg h mv ops s'). \<exists>out' s''.
                 r = (Msg ''Errors found:'' # out', Throw s'') \<and>
                 Msg (error_line POP_FROM_EMPTY_STACK) \<in> set out' \<and>
                 has_error POP_FROM_EMPTY_STACK s''))"
proof -
  let ?s0 = "set_error POP_FROM_EMPTY_STACK s"
  have "allocated ?s0" "size_m ?s0 = 0" "has_error POP_FROM_EMPTY_STACK ?s0"
    using assms by (simp_all add: has_error_set_error)
  then obtain out s' where
    c: "CHECK_VALIDITY cfg h ?s0 = (Msg ''Errors found:'' # out, Throw s')"
    and m: "Msg (error_line POP_FROM_EMPTY_STACK) \<in> set out"
    and al: "allocated s'" and z: "size_m s' = 0" and p: "has_error POP_FROM_EMPTY_STACK s'"
    using CHECK_VALIDITY_poisoned_empty [OF assms(1), of ?s0 h] by blast
  have "pop cfg h s = (Msg ''Errors found:'' # out, Throw s')"
    using assms(2) c by (simp add: pop_def)
  then show ?thesis
    using m p run_poisoned_empty [OF assms(1) al z p, of h] by blast
qed

theorem pop_on_empty_poisons_witness:
  "STACK_SAFE_MODE as_shipped \<and>
   allocated \<lparr>canary_before = POISON, control_sum = 0, capacity = 1, size_m = 0,
               buffer = Some [0 :: nat], errors = 0, canary_after = POISON\<rparr> \<and>
   (\<exists>out s'. pop as_shipped hash_nat
               \<lparr>canary_before = POISON, control_sum = 0, capacity = 1, size_m = 0,
                  buffer = Some [0 :: nat], errors = 0, canary_after = POISON\<rparr>
             = (Msg ''Errors found:'' # out, Throw s') \<and>
            has_error POP_FROM_EMPTY_STACK s' \<and>
            length (run as_shipped hash_nat scalar_move [Op_push 5 (fresh junk_nat), Op_empty] s') = 2)"
proof -
  let ?s = "\<lparr>canary_before = POISON, control_sum = 0, capacity = 1, size_m = 0,
               buffer = Some [0 :: nat], errors = 0, canary_after = POISON\<rparr>"
  have a: "STACK_SAFE_MODE as_shipped" by (simp add: as_shipped_def)
  have b: "size_m ?s = 0" by simp
  have c: "allocated ?s" by (simp add: allocated_def)
  obtain out s' where
    p: "pop as_shipped hash_nat ?s = (Msg ''Errors found:'' # out, Throw s')"
    and e: "has_error POP_FROM_EMPTY_STACK s'"
    and r: "\<forall>ops. length (run as_shipped hash_nat scalar_move ops s') = length ops \<and>
              (\<forall>r \<in> set (run as_shipped hash_nat scalar_move ops s'). \<exists>out' s''.
                 r = (Msg ''Errors found:'' # out', Throw s'') \<and>
                 Msg (error_line POP_FROM_EMPTY_STACK) \<in> set out' \<and>
                 has_error POP_FROM_EMPTY_STACK s'')"
    using pop_on_empty_poisons [OF a b c, of hash_nat] by blast
  have "length (run as_shipped hash_nat scalar_move [Op_push 5 (fresh junk_nat), Op_empty] s') = 2"
    using r by (metis length_Cons list.size(3) numeral_2_eq_2)
  then show ?thesis
    using a c p e by blast
qed

subsection \<open>Every call keeps an uncorrupted instance uncorrupted\<close>

lemma CHECK_VALIDITY_uncorrupted:
  assumes "uncorrupted h s" and "CHECK_VALIDITY cfg h s = (out, oc)"
    and "state_of oc = Some s'"
  shows "s' = s"
proof (cases "STACK_SAFE_MODE cfg")
  case True
  then have "print_errors cfg s = (out, oc)"
    using assms(1,2)
    by (simp add: CHECK_VALIDITY_def check_validity_def check_control_sum_uncorrupted
        check_canaries_uncorrupted)
  then show ?thesis using assms(3) by (rule print_errors_state)
next
  case False
  then show ?thesis using assms(2,3) by (auto simp: CHECK_VALIDITY_def state_of_def)
qed

lemma expand_uncorrupted:
  assumes u: "uncorrupted h s" and r: "expand a s = Return x s'"
  shows "uncorrupted h s'"
proof (cases a)
  case bad_alloc
  then show ?thesis
    using u r by (auto simp: expand_def Let_def split: if_splits)
next
  case (fresh j)
  have "size_m s = capacity s"
    using r by (auto simp: expand_def split: if_splits)
  then show ?thesis
    using expand_fresh_Return [OF u _ r [unfolded fresh]] by simp
qed

lemma push_uncorrupted:
  assumes u: "uncorrupted h s" and r: "push cfg h v a s = (out, oc)"
    and st: "state_of oc = Some s'"
  shows "uncorrupted h s'"
proof -
  let ?e = "if size_m s = capacity s then expand a s else Return () s"
  obtain s1 where e: "?e = Return () s1"
    using r st by (cases ?e) (auto simp: push_def state_of_def expand_def Let_def
        split: if_splits alloc_result.splits option.splits)
  have u1: "uncorrupted h s1"
    using e u expand_uncorrupted [OF u, of a "()" s1] by (auto split: if_splits)
  obtain out0 oc0 where c: "CHECK_VALIDITY cfg h s1 = (out0, oc0)"
    by (cases "CHECK_VALIDITY cfg h s1")
  show ?thesis
  proof (cases oc0)
    case (Return x s2)
    then have s2: "s2 = s1"
      using CHECK_VALIDITY_uncorrupted [OF u1 c] by (simp add: state_of_def)
    have lt: "size_m s1 < capacity s1"
      using r st e c Return s2 by (auto simp: push_def state_of_def split: if_splits)
    obtain b where b: "write_slot (buffer s1) (unat (size_m s1)) v = Some b"
      and ub: "uncorrupted h (s1\<lparr>buffer := Some b, size_m := size_m s1 + 1,
                            control_sum := control_sum s1 + h v\<rparr>)"
      using push_store [OF u1 lt, of v] by blast
    show ?thesis
      using r st e c Return s2 lt b ub by (auto simp: push_def Let_def state_of_def)
  next
    case (Throw s2)
    then have "s2 = s1"
      using CHECK_VALIDITY_uncorrupted [OF u1 c] by (simp add: state_of_def)
    then show ?thesis
      using r st e c Throw u1 by (auto simp: push_def state_of_def)
  next
    case AssertFail
    then show ?thesis using r st e c by (auto simp: push_def state_of_def)
  next
    case Undefined
    then show ?thesis using r st e c by (auto simp: push_def state_of_def)
  qed
qed

lemma pop_uncorrupted:
  assumes u: "uncorrupted h s" and r: "pop cfg h s = (out, oc)"
    and st: "state_of oc = Some s'"
  shows "uncorrupted h s'"
proof (cases "size_m s = 0")
  case True
  then have c: "CHECK_VALIDITY cfg h (set_error POP_FROM_EMPTY_STACK s) = (out, oc)"
    using r by (simp add: pop_def)
  have "s' = set_error POP_FROM_EMPTY_STACK s"
    using CHECK_VALIDITY_uncorrupted [OF _ c st] u by simp
  then show ?thesis using u by simp
next
  case False
  obtain x where x: "read_slot (buffer s) (unat (size_m s - 1)) = Some x"
    and u': "uncorrupted h (s\<lparr>control_sum := control_sum s - h x, size_m := size_m s - 1\<rparr>)"
    using pop_remove [OF u False] by blast
  have c: "CHECK_VALIDITY cfg h (s\<lparr>control_sum := control_sum s - h x, size_m := size_m s - 1\<rparr>)
      = (out, oc)"
    using r False x by (simp add: pop_def Let_def)
  show ?thesis
    using CHECK_VALIDITY_uncorrupted [OF u' c st] u' by simp
qed

lemma top_uncorrupted:
  assumes u: "uncorrupted h s" and r: "top cfg h s = (out, oc)"
    and st: "state_of oc = Some s'"
  shows "uncorrupted h s'"
proof -
  let ?s0 = "if size_m s = 0 then set_error TOP_FROM_EMPTY_STACK s else s"
  have u0: "uncorrupted h ?s0" using u by simp
  obtain oc0 where c: "CHECK_VALIDITY cfg h ?s0 = (out, oc0)" and st0: "state_of oc0 = Some s'"
    using r st
    by (auto simp: top_def Let_def state_of_def split: prod.splits outcome.splits option.splits)
  show ?thesis
    using CHECK_VALIDITY_uncorrupted [OF u0 c st0] u0 by simp
qed

lemma empty_uncorrupted:
  assumes u: "uncorrupted h s" and r: "empty cfg h s = (out, oc)"
    and st: "state_of oc = Some s'"
  shows "uncorrupted h s'"
proof -
  obtain oc0 where c: "CHECK_VALIDITY cfg h s = (out, oc0)" and st0: "state_of oc0 = Some s'"
    using r st by (auto simp: empty_def state_of_def split: prod.splits outcome.splits)
  show ?thesis
    using CHECK_VALIDITY_uncorrupted [OF u c st0] u by simp
qed

lemma call_uncorrupted:
  assumes "uncorrupted h s" and "state_of (snd (call cfg h mv op s)) = Some s'"
  shows "uncorrupted h s'"
proof (cases op)
  case Op_empty
  then show ?thesis
    using assms empty_uncorrupted [of h s cfg _ _ s']
    by (cases "empty cfg h s") (simp add: call_def)
next
  case Op_pop
  then show ?thesis
    using assms pop_uncorrupted [of h s cfg _ _ s']
    by (cases "pop cfg h s") (simp add: call_def)
next
  case Op_top
  then show ?thesis
    using assms top_uncorrupted [of h s cfg _ _ s']
    by (cases "top cfg h s") (simp add: call_def)
next
  case (Op_push v a)
  then show ?thesis
    using assms push_uncorrupted [of h s cfg v a _ _ s']
    by (cases "push cfg h v a s") (simp add: call_def)
next
  case (Op_push_rvalue v a)
  show ?thesis
  proof (cases "push_rvalue cfg h mv v a s = push cfg h v a s")
    case True
    then show ?thesis
      using Op_push_rvalue assms push_uncorrupted [of h s cfg v a _ _ s']
      by (cases "push cfg h v a s") (simp add: call_def)
  next
    case False
    then have "snd (push_rvalue cfg h mv v a s) = Undefined"
      using push_rvalue_cases [of cfg h mv v a s] by blast
    then show ?thesis
      using Op_push_rvalue assms
      by (cases "push_rvalue cfg h mv v a s") (simp add: call_def state_of_def)
  qed
qed

lemma run_uncorrupted:
  "uncorrupted h s \<Longrightarrow> r \<in> set (run cfg h mv ops s) \<Longrightarrow> state_of (snd r) = Some s'
     \<Longrightarrow> uncorrupted h s'"
proof (induction ops arbitrary: s)
  case Nil
  then show ?case by simp
next
  case (Cons op ops)
  show ?case
  proof (cases "r = call cfg h mv op s")
    case True
    then show ?thesis using Cons.prems call_uncorrupted by blast
  next
    case False
    then obtain s1 where s1: "state_of (snd (call cfg h mv op s)) = Some s1"
      and r: "r \<in> set (run cfg h mv ops s1)"
      using Cons.prems(2)
      by (cases "state_of (snd (call cfg h mv op s))") (auto simp: Let_def)
    have "uncorrupted h s1"
      using Cons.prems(1) s1 by (rule call_uncorrupted)
    then show ?thesis using r Cons.prems(3) by (rule Cons.IH)
  qed
qed

subsection \<open>Sequences of calls on an uncorrupted instance\<close>

lemma push_fresh_outcome:
  assumes u: "uncorrupted h s" and e: "errors s = 0"
  shows "(\<exists>s'. push cfg h v (fresh j) s = ([], Return () s')) \<or>
         push cfg h v (fresh j) s = ([], AssertFail) \<or>
         push cfg h v (fresh j) s = ([], Undefined)"
proof -
  let ?e = "if size_m s = capacity s then expand (fresh j) s else Return () s"
  show ?thesis
  proof (cases ?e)
    case (Return x s1)
    then have "uncorrupted h s1 \<and> errors s1 = 0"
      using u e expand_fresh_Return [of h s j x s1] by (auto split: if_splits)
    then have cv: "CHECK_VALIDITY cfg h s1 = ([], Return () s1)"
      by (simp add: CHECK_VALIDITY_ok)
    show ?thesis
      using Return cv by (simp add: push_def Let_def split: option.splits)
  next
    case (Throw s1)
    then show ?thesis
      by (auto simp: expand_def Let_def split: if_splits option.splits)
  next
    case AssertFail
    then show ?thesis by (simp add: push_def)
  next
    case Undefined
    then show ?thesis by (simp add: push_def)
  qed
qed

lemma well_used_step: "well_used xs (op # ops) \<Longrightarrow> well_used (spec_step xs op) ops"
  by (cases op) simp_all

lemma call_well_used:
  assumes u: "uncorrupted h s" and e: "errors s = 0" and w: "well_used (live s) (op # ops)"
  shows "(\<exists>x s'. call cfg h mv op s = ([], Return x s') \<and> uncorrupted h s' \<and> errors s' = 0 \<and>
            live s' = spec_step (live s) op \<and>
            (unat (capacity s') = unat (capacity s) \<or>
             unat (capacity s') = 2 * unat (capacity s))) \<or>
         snd (call cfg h mv op s) = AssertFail \<or> snd (call cfg h mv op s) = Undefined"
proof (cases op)
  case Op_empty
  then show ?thesis
    using u e by (simp add: call_def empty_ok)
next
  case Op_pop
  then have "size_m s \<noteq> 0"
    using w u by (simp add: size_zero_iff_live)
  then show ?thesis
    using Op_pop pop_nonempty [OF u e, of cfg] by (auto simp: call_def)
next
  case Op_top
  then have "size_m s \<noteq> 0"
    using w u by (simp add: size_zero_iff_live)
  then show ?thesis
    using Op_top u e by (simp add: call_def top_nonempty)
next
  case (Op_push v a)
  then obtain j where a: "a = fresh j"
    using w by (cases a) simp_all
  show ?thesis
    using Op_push a push_fresh_outcome [OF u e, of cfg v j]
      push_Return [OF u e, of cfg v j]
    by (auto simp: call_def)
next
  case (Op_push_rvalue v a)
  then obtain j where a: "a = fresh j"
    using w by (cases a) simp_all
  show ?thesis
  proof (cases "push_rvalue cfg h mv v a s = push cfg h v a s")
    case True
    then show ?thesis
      using Op_push_rvalue a push_fresh_outcome [OF u e, of cfg v j]
        push_Return [OF u e, of cfg v j]
      by (auto simp: call_def)
  next
    case False
    then have "snd (push_rvalue cfg h mv v a s) = Undefined"
      using push_rvalue_cases [of cfg h mv v a s] by blast
    then show ?thesis
      using Op_push_rvalue
      by (cases "push_rvalue cfg h mv v a s") (simp add: call_def)
  qed
qed

lemma moves_defined_tail: "moves_defined mv (op # ops) \<Longrightarrow> moves_defined mv ops"
  by (simp add: moves_defined_def)

lemma moves_defined_head:
  "moves_defined mv (Op_push_rvalue v a # ops) \<Longrightarrow> \<forall>old. mv old v"
  by (auto simp: moves_defined_def)

lemma call_well_used_total:
  assumes u: "uncorrupted h s" and e: "errors s = 0" and w: "well_used (live s) (op # ops)"
    and c0: "capacity s \<noteq> 0" and small: "unat (size_m s) < 2 ^ 63"
    and md: "moves_defined mv (op # ops)"
  shows "\<exists>x s'. call cfg h mv op s = ([], Return x s') \<and> uncorrupted h s' \<and> errors s' = 0 \<and>
            live s' = spec_step (live s) op \<and> capacity s' \<noteq> 0"
proof -
  have ret: "\<exists>x s'. call cfg h mv op s = ([], Return x s')"
  proof (cases op)
    case Op_empty
    then show ?thesis using u e by (simp add: call_def empty_ok)
  next
    case Op_pop
    then have "size_m s \<noteq> 0"
      using w u by (simp add: size_zero_iff_live)
    then show ?thesis
      using Op_pop pop_nonempty [OF u e, of cfg] by (auto simp: call_def)
  next
    case Op_top
    then have "size_m s \<noteq> 0"
      using w u by (simp add: size_zero_iff_live)
    then show ?thesis
      using Op_top u e by (simp add: call_def top_nonempty)
  next
    case (Op_push v a)
    then obtain j where a: "a = fresh j"
      using w by (cases a) simp_all
    show ?thesis
      using Op_push a push_total [OF u e c0 small, of cfg v j] by (auto simp: call_def)
  next
    case (Op_push_rvalue v a)
    then obtain j where a: "a = fresh j"
      using w by (cases a) simp_all
    have "\<forall>old. mv old v"
      using md Op_push_rvalue by (auto dest: moves_defined_head)
    then show ?thesis
      using Op_push_rvalue a push_total [OF u e c0 small, of cfg v j]
      by (auto simp: call_def push_rvalue_eq_push)
  qed
  then obtain x s' where r: "call cfg h mv op s = ([], Return x s')" by blast
  have "0 < unat (capacity s)" using c0 by (simp add: unat_gt_0)
  then have "uncorrupted h s' \<and> errors s' = 0 \<and> live s' = spec_step (live s) op \<and>
      0 < unat (capacity s')"
    using call_well_used [OF u e w, of cfg mv] r by auto
  then show ?thesis using r by (auto simp: unat_gt_0)
qed

lemma run_well_used:
  "uncorrupted h s \<Longrightarrow> errors s = 0 \<Longrightarrow> well_used (live s) ops \<Longrightarrow>
   i < length (run cfg h mv ops s) \<Longrightarrow>
   (\<exists>x s'. run cfg h mv ops s ! i = ([], Return x s') \<and> uncorrupted h s' \<and> errors s' = 0 \<and>
      live s' = spec_run (live s) (take (Suc i) ops)) \<or>
   (Suc i = length (run cfg h mv ops s) \<and>
    (snd (run cfg h mv ops s ! i) = AssertFail \<or> snd (run cfg h mv ops s ! i) = Undefined))"
proof (induction ops arbitrary: s i)
  case Nil
  then show ?case by simp
next
  case (Cons op ops)
  consider (ok) x s1 where "call cfg h mv op s = ([], Return x s1)" "uncorrupted h s1"
      "errors s1 = 0" "live s1 = spec_step (live s) op"
    | (dead) "snd (call cfg h mv op s) = AssertFail \<or> snd (call cfg h mv op s) = Undefined"
    using call_well_used [OF Cons.prems(1,2,3), of cfg] by blast
  then show ?case
  proof cases
    case ok
    have r: "run cfg h mv (op # ops) s = ([], Return x s1) # run cfg h mv ops s1"
      using ok(1) by (simp add: state_of_def)
    show ?thesis
    proof (cases i)
      case 0
      then show ?thesis
        using ok by (simp add: r spec_run_def del: run.simps)
    next
      case (Suc k)
      have w1: "well_used (live s1) ops"
        using Cons.prems(3) ok(4) by (simp add: well_used_step)
      have k: "k < length (run cfg h mv ops s1)"
        using Cons.prems(4) Suc by (simp add: r del: run.simps)
      show ?thesis
        using Cons.IH [OF ok(2,3) w1 k] Suc ok(4)
        by (simp add: r spec_run_def del: run.simps)
    qed
  next
    case dead
    then have r: "run cfg h mv (op # ops) s = [call cfg h mv op s]"
      by (auto simp: state_of_def Let_def)
    show ?thesis
      using dead Cons.prems(4) by (simp add: r del: run.simps)
  qed
qed

lemma length_spec_step: "length (spec_step xs op) \<le> Suc (length xs)"
  by (cases op) simp_all

lemma run_well_used_total:
  "uncorrupted h s \<Longrightarrow> errors s = 0 \<Longrightarrow> well_used (live s) ops \<Longrightarrow>
   capacity s \<noteq> 0 \<Longrightarrow> length (live s) + length ops \<le> 2 ^ 63 \<Longrightarrow>
   moves_defined mv ops \<Longrightarrow>
   length (run cfg h mv ops s) = length ops \<and>
   (\<forall>r \<in> set (run cfg h mv ops s). \<exists>x s'. r = ([], Return x s'))"
proof (induction ops arbitrary: s)
  case Nil
  then show ?case by simp
next
  case (Cons op ops)
  have "unat (size_m s) < 2 ^ 63"
    using Cons.prems(1,5) by (simp add: length_live)
  then obtain x s1 where c: "call cfg h mv op s = ([], Return x s1)" and u1: "uncorrupted h s1"
    and e1: "errors s1 = 0" and l1: "live s1 = spec_step (live s) op"
    and c1: "capacity s1 \<noteq> 0"
    using call_well_used_total [OF Cons.prems(1,2,3,4) _ Cons.prems(6), of cfg] by blast
  have r: "run cfg h mv (op # ops) s = ([], Return x s1) # run cfg h mv ops s1"
    using c by (simp add: state_of_def)
  have w1: "well_used (live s1) ops"
    using Cons.prems(3) l1 by (simp add: well_used_step)
  have m1: "moves_defined mv ops"
    using Cons.prems(6) by (rule moves_defined_tail)
  have "length (live s1) + length ops \<le> 2 ^ 63"
    using Cons.prems(5) l1 length_spec_step [of "live s" op] by simp
  then show ?case
    using Cons.IH [OF u1 e1 w1 c1 _ m1] by (simp add: r del: run.simps)
qed

text \<open>
  C1. Take an uncorrupted instance with no error bit set and any sequence of calls in
  which no allocation fails and the empty stack is never popped (nor asked for its
  top). Each call of the sequence that is reached returns (writing nothing), and in the
  state it leaves behind the live elements \<open>buffer_[0..size_)\<close> are those of the
  specification's sequence after the same calls, \<open>size_\<close> is their number, the stored sum
  is the sum of their hashes (in 64-bit arithmetic), no error bit is set and the instance
  is uncorrupted; the only other way a call can end is the last one stopping the process
  (the assertion after a growth from capacity 0, a capacity beyond \<open>size_t\<close>, or a by-move
  push whose move assignment is not defined). With a capacity other than 0, at most
  \<open>2^63\<close> elements in all and the move assignment defined for the values pushed by move,
  every call is reached.
  Whatever the sequence (failed allocations and pops of the empty stack included), the
  stored sum is the sum of the hashes of \<open>buffer_[0..size_)\<close> in every state a call
  leaves behind.
\<close>

theorem checksum_and_size_invariant:
  assumes "uncorrupted h s" and "errors s = 0" and "well_used (live s) ops"
  shows "(\<forall>i < length (run cfg h mv ops s).
            (\<exists>x s'. run cfg h mv ops s ! i = ([], Return x s') \<and>
               live s' = spec_run (live s) (take (Suc i) ops) \<and>
               unat (size_m s') = length (spec_run (live s) (take (Suc i) ops)) \<and>
               control_sum s' = sum_list (map h (spec_run (live s) (take (Suc i) ops))) \<and>
               errors s' = 0 \<and> uncorrupted h s') \<or>
            (Suc i = length (run cfg h mv ops s) \<and>
             (snd (run cfg h mv ops s ! i) = AssertFail \<or>
              snd (run cfg h mv ops s ! i) = Undefined))) \<and>
         (capacity s \<noteq> 0 \<and> length (live s) + length ops \<le> 2 ^ 63 \<and>
          moves_defined mv ops \<longrightarrow>
            length (run cfg h mv ops s) = length ops \<and>
            (\<forall>i < length ops. \<exists>x s'. run cfg h mv ops s ! i = ([], Return x s'))) \<and>
         (\<forall>any r s'. r \<in> set (run cfg h mv any s) \<longrightarrow> state_of (snd r) = Some s' \<longrightarrow>
            control_sum s' = sum_list (map h (live s')) \<and> uncorrupted h s')"
proof -
  have a: "(\<exists>x s'. run cfg h mv ops s ! i = ([], Return x s') \<and>
               live s' = spec_run (live s) (take (Suc i) ops) \<and>
               unat (size_m s') = length (spec_run (live s) (take (Suc i) ops)) \<and>
               control_sum s' = sum_list (map h (spec_run (live s) (take (Suc i) ops))) \<and>
               errors s' = 0 \<and> uncorrupted h s') \<or>
            (Suc i = length (run cfg h mv ops s) \<and>
             (snd (run cfg h mv ops s ! i) = AssertFail \<or>
              snd (run cfg h mv ops s ! i) = Undefined))"
    if i: "i < length (run cfg h mv ops s)" for i
  proof -
    consider (ok) x s' where "run cfg h mv ops s ! i = ([], Return x s')" "uncorrupted h s'"
        "errors s' = 0" "live s' = spec_run (live s) (take (Suc i) ops)"
      | (dead) "Suc i = length (run cfg h mv ops s) \<and>
          (snd (run cfg h mv ops s ! i) = AssertFail \<or> snd (run cfg h mv ops s ! i) = Undefined)"
      using run_well_used [OF assms i] by blast
    then show ?thesis
    proof cases
      case ok
      have "unat (size_m s') = length (live s')"
        using ok(2) by (simp add: length_live)
      moreover have "control_sum s' = sum_list (map h (live s'))"
        using ok(2) by (simp add: uncorrupted_def)
      ultimately show ?thesis
        using ok by simp
    next
      case dead
      then show ?thesis by blast
    qed
  qed
  have b: "length (run cfg h mv ops s) = length ops \<and>
            (\<forall>i < length ops. \<exists>x s'. run cfg h mv ops s ! i = ([], Return x s'))"
    if t: "capacity s \<noteq> 0" "length (live s) + length ops \<le> 2 ^ 63" "moves_defined mv ops"
  proof -
    have len: "length (run cfg h mv ops s) = length ops"
      and ret: "\<forall>r \<in> set (run cfg h mv ops s). \<exists>x s'. r = ([], Return x s')"
      using run_well_used_total [OF assms t, of cfg] by blast+
    show ?thesis
      using len ret by (metis nth_mem)
  qed
  have c: "control_sum s' = sum_list (map h (live s')) \<and> uncorrupted h s'"
    if "r \<in> set (run cfg h mv any s)" "state_of (snd r) = Some s'" for any r s'
  proof -
    have "uncorrupted h s'"
      using assms(1) that by (rule run_uncorrupted)
    then show ?thesis by (simp add: uncorrupted_def)
  qed
  show ?thesis using a b c by blast
qed

theorem checksum_and_size_invariant_witness:
  "uncorrupted hash_nat
     \<lparr>canary_before = POISON, control_sum = 0, capacity = 2, size_m = 0,
        buffer = Some [0, 0], errors = 0, canary_after = POISON\<rparr> \<and>
   well_used []
     [Op_push 7 (fresh junk_nat), Op_push_rvalue 8 (fresh junk_nat),
      Op_push 9 (fresh junk_nat), Op_pop] \<and>
   (\<exists>x s'. run as_shipped hash_nat scalar_move
             [Op_push 7 (fresh junk_nat), Op_push_rvalue 8 (fresh junk_nat),
              Op_push 9 (fresh junk_nat), Op_pop]
             \<lparr>canary_before = POISON, control_sum = 0, capacity = 2, size_m = 0,
                buffer = Some [0, 0], errors = 0, canary_after = POISON\<rparr> ! 3
           = ([], Return x s') \<and>
         live s' = [7, 8] \<and> unat (size_m s') = 2 \<and> control_sum s' = 15 \<and> errors s' = 0)"
proof -
  let ?s = "\<lparr>canary_before = POISON, control_sum = 0, capacity = 2, size_m = 0,
        buffer = Some [0, 0 :: nat], errors = 0, canary_after = POISON\<rparr>"
  let ?ops = "[Op_push 7 (fresh junk_nat), Op_push_rvalue 8 (fresh junk_nat),
      Op_push 9 (fresh junk_nat), Op_pop]"
  have l: "live ?s = []" by (simp add: live_def)
  have u: "uncorrupted hash_nat ?s"
    by (simp add: uncorrupted_def allocated_def l)
  have e: "errors ?s = 0" by simp
  have w: "well_used (live ?s) ?ops" by (simp add: l)
  have sp: "spec_run (live ?s) (take (Suc 3) ?ops) = [7, 8]"
    by (simp add: l spec_run_def)
  have t: "capacity ?s \<noteq> 0 \<and> length (live ?s) + length ?ops \<le> 2 ^ 63 \<and>
      moves_defined scalar_move ?ops"
    by (simp add: l moves_defined_def scalar_move_def)
  note th = checksum_and_size_invariant [OF u e w, of as_shipped scalar_move]
  have len: "length (run as_shipped hash_nat scalar_move ?ops ?s) = length ?ops"
    and ret: "\<forall>i < length ?ops. \<exists>x s'. run as_shipped hash_nat scalar_move ?ops ?s ! i = ([], Return x s')"
    using th t by blast+
  have i3: "3 < length (run as_shipped hash_nat scalar_move ?ops ?s)"
    using len by simp
  obtain x s' where r: "run as_shipped hash_nat scalar_move ?ops ?s ! 3 = ([], Return x s')"
    using ret by force
  have "\<exists>x s'. run as_shipped hash_nat scalar_move ?ops ?s ! 3 = ([], Return x s') \<and>
      live s' = spec_run (live ?s) (take (Suc 3) ?ops) \<and>
      unat (size_m s') = length (spec_run (live ?s) (take (Suc 3) ?ops)) \<and>
      control_sum s' = sum_list (map hash_nat (spec_run (live ?s) (take (Suc 3) ?ops))) \<and>
      errors s' = 0 \<and> uncorrupted hash_nat s'"
    using th i3 r by (metis outcome.distinct(3) outcome.distinct(5) snd_conv)
  then show ?thesis
    using u w l sp by (auto simp: hash_nat_def)
qed

subsection \<open>Growth of a fresh instance\<close>

lemma length_block: "length (block j n) = unat n"
  by (simp add: block_def)

lemma CherepkovStack_new_fresh:
  "\<exists>s0. CherepkovStack_new cfg h c (fresh j) = ([], Return () s0) \<and> uncorrupted h s0 \<and>
      errors s0 = 0 \<and> live s0 = [] \<and> size_m s0 = 0 \<and> capacity s0 = c"
proof -
  let ?s1 = "\<lparr>canary_before = POISON, control_sum = 0, capacity = c, size_m = 0,
              buffer = Some (block j c), errors = 0, canary_after = POISON\<rparr>"
  have l: "live ?s1 = []" by (simp add: live_def)
  have u: "uncorrupted h ?s1"
    by (simp add: uncorrupted_def allocated_def l length_block)
  have "CherepkovStack_new cfg h c (fresh j) = ([], Return () ?s1)"
    using u by (simp add: CherepkovStack_new_def CHECK_VALIDITY_ok)
  then show ?thesis using u l by simp
qed

lemma pushes_of_Cons:
  assumes "pushes_of (op # ops) = Some vs"
  shows "\<exists>v j vs'. (op = Op_push v (fresh j) \<or> op = Op_push_rvalue v (fresh j)) \<and>
           vs = v # vs' \<and> pushes_of ops = Some vs'"
proof (cases op)
  case (Op_push v a)
  then show ?thesis using assms by (cases a) auto
next
  case (Op_push_rvalue v a)
  then show ?thesis using assms by (cases a) auto
qed (use assms in simp_all)

lemma pushes_of_length: "pushes_of ops = Some vs \<Longrightarrow> length vs = length ops"
proof (induction ops arbitrary: vs)
  case Nil
  then show ?case by simp
next
  case (Cons op ops)
  then show ?case using pushes_of_Cons [OF Cons.prems] by auto
qed

lemma doubling_shift:
  fixes C :: nat
  shows "(C, 2 * C) # map (\<lambda>i. (2 * C * 2 ^ i, 2 * C * 2 ^ Suc i)) [0..<g]
     = map (\<lambda>i. (C * 2 ^ i, C * 2 ^ Suc i)) [0..<Suc g]"
proof -
  have "[0..<Suc g] = 0 # map Suc [0..<g]"
    by (simp add: upt_conv_Cons map_Suc_upt del: upt_Suc)
  then show ?thesis
    by (simp add: o_def mult.assoc mult.left_commute del: upt_Suc)
qed

lemma no_doubling_needed:
  fixes n C g :: nat
  assumes "n \<le> C" and "g = 0 \<or> C * 2 ^ (g - 1) < n"
  shows "g = 0"
proof (rule ccontr)
  assume "g \<noteq> 0"
  then have "C * 2 ^ (g - 1) < n" using assms(2) by simp
  moreover have "C \<le> C * 2 ^ (g - 1)" by simp
  ultimately show False using assms(1) by linarith
qed

text \<open>
  Pushing onto an uncorrupted, error-free instance of size \<open>n\<close> and capacity \<open>C > 0\<close>:
  with \<open>g\<close> the least number of doublings after which everything fits, the calls that
  grow are \<open>g\<close> in number and take the capacity from \<open>C * 2^i\<close> to \<open>C * 2^(i+1)\<close>.
\<close>

lemma run_pushes:
  "uncorrupted h s \<Longrightarrow> errors s = 0 \<Longrightarrow> pushes_of ops = Some vs \<Longrightarrow>
   0 < unat (capacity s) \<Longrightarrow> unat (size_m s) + length vs \<le> 2 ^ 63 \<Longrightarrow>
   unat (size_m s) + length vs \<le> unat (capacity s) * 2 ^ g \<Longrightarrow>
   g = 0 \<or> unat (capacity s) * 2 ^ (g - 1) < unat (size_m s) + length vs \<Longrightarrow>
   moves_defined mv ops \<Longrightarrow>
   length (run cfg h mv ops s) = length ops \<and>
   (\<forall>r \<in> set (run cfg h mv ops s). \<exists>s'. r = ([], Return Void s')) \<and>
   growths cfg h mv ops s
     = map (\<lambda>i. (unat (capacity s) * 2 ^ i, unat (capacity s) * 2 ^ Suc i)) [0..<g] \<and>
   (ops \<noteq> [] \<longrightarrow>
      (\<exists>s'. last (run cfg h mv ops s) = ([], Return Void s') \<and> live s' = live s @ vs \<and>
         unat (capacity s') = unat (capacity s) * 2 ^ g))"
proof (induction ops arbitrary: s vs g)
  case Nil
  then have vs: "vs = []" by simp
  have "unat (size_m s) \<le> unat (capacity s)"
    using Nil.prems(1) by (simp add: uncorrupted_def word_le_nat_alt)
  then have "g = 0"
    using Nil.prems(7) vs no_doubling_needed [of "unat (size_m s)" "unat (capacity s)" g]
    by simp
  then show ?case by simp
next
  case (Cons op ops)
  let ?n = "unat (size_m s)" and ?C = "unat (capacity s)"
  obtain v j vs' where op: "op = Op_push v (fresh j) \<or> op = Op_push_rvalue v (fresh j)"
    and vs: "vs = v # vs'" and ps: "pushes_of ops = Some vs'"
    using pushes_of_Cons [OF Cons.prems(3)] by blast
  have c0: "capacity s \<noteq> 0" using Cons.prems(4) by auto
  have small: "?n < 2 ^ 63" using Cons.prems(5) vs by simp
  obtain s1 where p: "push cfg h v (fresh j) s = ([], Return () s1)"
    using push_total [OF Cons.prems(1,2) c0 small, of cfg v j] by blast
  have u1: "uncorrupted h s1" and e1: "errors s1 = 0" and l1: "live s1 = live s @ [v]"
    and cap1: "unat (capacity s1) = (if size_m s = capacity s then 2 * ?C else ?C)"
    using push_Return [OF Cons.prems(1,2) p] by simp_all
  have n1: "unat (size_m s1) = Suc ?n"
    using l1 length_live [OF u1] length_live [OF Cons.prems(1)] by simp
  have md: "\<forall>old. mv old v" if "op = Op_push_rvalue v (fresh j)"
    using Cons.prems(8) that by (auto dest: moves_defined_head)
  have m1: "moves_defined mv ops"
    using Cons.prems(8) by (rule moves_defined_tail)
  have c: "call cfg h mv op s = ([], Return Void s1)"
    using op p md by (auto simp: call_def push_rvalue_eq_push)
  have r: "run cfg h mv (op # ops) s = ([], Return Void s1) # run cfg h mv ops s1"
    using c by (simp add: state_of_def)
  have ip: "is_push op" using op by (auto simp: is_push_def)
  have gr: "growths cfg h mv (op # ops) s
      = (if size_m s = capacity s then [(?C, unat (capacity s1))] else [])
        @ growths cfg h mv ops s1"
    using c ip by (simp add: state_of_def)
  have le: "?n \<le> ?C"
    using Cons.prems(1) by (simp add: uncorrupted_def word_le_nat_alt)
  have pos1: "0 < unat (capacity s1)" using cap1 Cons.prems(4) by (simp split: if_splits)
  have b1: "unat (size_m s1) + length vs' \<le> 2 ^ 63"
    using Cons.prems(5) vs n1 by simp
  show ?case
  proof (cases "size_m s = capacity s")
    case True
    then have nC: "?n = ?C" by simp
    have g0: "g \<noteq> 0"
      using Cons.prems(6) vs nC by (cases g) auto
    then obtain g' where g: "g = Suc g'" by (cases g) auto
    have c1: "unat (capacity s1) = 2 * ?C" using cap1 True by simp
    have fit: "unat (size_m s1) + length vs' \<le> unat (capacity s1) * 2 ^ g'"
      using Cons.prems(6) vs n1 c1 g by (simp add: mult.assoc)
    have least: "g' = 0 \<or> unat (capacity s1) * 2 ^ (g' - 1) < unat (size_m s1) + length vs'"
    proof (cases g')
      case 0
      then show ?thesis by simp
    next
      case (Suc k)
      then show ?thesis
        using Cons.prems(7) g vs n1 c1 by (simp add: mult.assoc)
    qed
    note IH = Cons.IH [OF u1 e1 ps pos1 b1 fit least m1]
    from IH have gIH: "growths cfg h mv ops s1
        = map (\<lambda>i. (unat (capacity s1) * 2 ^ i, unat (capacity s1) * 2 ^ Suc i)) [0..<g']"
      by blast
    have "growths cfg h mv (op # ops) s
        = (?C, 2 * ?C) # map (\<lambda>i. (2 * ?C * 2 ^ i, 2 * ?C * 2 ^ Suc i)) [0..<g']"
      unfolding gr gIH c1 using True by simp
    then have gs: "growths cfg h mv (op # ops) s
        = map (\<lambda>i. (?C * 2 ^ i, ?C * 2 ^ Suc i)) [0..<g]"
      unfolding g by (simp only: doubling_shift)
    have lastr: "last (run cfg h mv (op # ops) s)
        = (if ops = [] then ([], Return Void s1) else last (run cfg h mv ops s1))"
      unfolding r using IH by auto
    have fin: "\<exists>s'. last (run cfg h mv (op # ops) s) = ([], Return Void s') \<and>
        live s' = live s @ vs \<and> unat (capacity s') = ?C * 2 ^ g"
    proof (cases "ops = []")
      case True
      then have "vs' = []" using ps by simp
      moreover have "g' = 0"
        using least n1 c1 nC \<open>vs' = []\<close> Cons.prems(4)
          no_doubling_needed [of "unat (size_m s1)" "unat (capacity s1)" g']
        by simp
      ultimately show ?thesis
        unfolding lastr using True l1 c1 vs g by simp
    next
      case False
      then show ?thesis
        unfolding lastr using IH l1 c1 vs g by (auto simp: mult.assoc)
    qed
    show ?thesis
      unfolding r using IH gs fin [unfolded r] by simp
  next
    case False
    then have lt: "?n < ?C"
      using le by (simp add: word_unat_eq_iff)
    have c1: "unat (capacity s1) = ?C" using cap1 False by simp
    have fit: "unat (size_m s1) + length vs' \<le> unat (capacity s1) * 2 ^ g"
      using Cons.prems(6) vs n1 c1 by simp
    have least: "g = 0 \<or> unat (capacity s1) * 2 ^ (g - 1) < unat (size_m s1) + length vs'"
      using Cons.prems(7) vs n1 c1 by simp
    note IH = Cons.IH [OF u1 e1 ps pos1 b1 fit least m1]
    from IH have gIH: "growths cfg h mv ops s1
        = map (\<lambda>i. (unat (capacity s1) * 2 ^ i, unat (capacity s1) * 2 ^ Suc i)) [0..<g]"
      by blast
    have gs: "growths cfg h mv (op # ops) s
        = map (\<lambda>i. (?C * 2 ^ i, ?C * 2 ^ Suc i)) [0..<g]"
      unfolding gr gIH c1 using False by simp
    have lastr: "last (run cfg h mv (op # ops) s)
        = (if ops = [] then ([], Return Void s1) else last (run cfg h mv ops s1))"
      unfolding r using IH by auto
    have fin: "\<exists>s'. last (run cfg h mv (op # ops) s) = ([], Return Void s') \<and>
        live s' = live s @ vs \<and> unat (capacity s') = ?C * 2 ^ g"
    proof (cases "ops = []")
      case True
      then have "vs' = []" using ps by simp
      moreover have "g = 0"
        using least n1 c1 lt \<open>vs' = []\<close>
          no_doubling_needed [of "unat (size_m s1)" "unat (capacity s1)" g]
        by simp
      ultimately show ?thesis
        unfolding lastr using True l1 c1 vs by simp
    next
      case False
      then show ?thesis
        unfolding lastr using IH l1 c1 vs by auto
    qed
    show ?thesis
      unfolding r using IH gs fin [unfolded r] by simp
  qed
qed

lemma ceiling_log2_bracket:
  fixes k c :: nat
  assumes c: "0 < c" and k: "c < k"
  defines "g \<equiv> nat \<lceil>log 2 (real k / real c)\<rceil>"
  shows "k \<le> c * 2 ^ g \<and> c * 2 ^ (g - 1) < k \<and> g \<noteq> 0"
proof -
  let ?x = "real k / real c"
  have x1: "1 < ?x" using c k by simp
  then have x0: "0 < ?x" by linarith
  have "0 < log 2 ?x" using x1 by simp
  then have z1: "1 \<le> \<lceil>log 2 ?x\<rceil>" by linarith
  then have gz: "real g = of_int \<lceil>log 2 ?x\<rceil>"
    by (simp add: g_def)
  have g1: "1 \<le> g" unfolding g_def using z1 by linarith
  have "log 2 ?x \<le> real g"
    using gz by simp
  then have "?x \<le> 2 powr real g"
    using x0 by (simp add: log_le_iff)
  then have "?x \<le> 2 ^ g"
    by (simp add: powr_realpow)
  then have "real k \<le> real c * 2 ^ g"
    using c by (simp add: field_simps)
  then have "real k \<le> real (c * 2 ^ g)" by simp
  then have up: "k \<le> c * 2 ^ g" by (simp only: of_nat_le_iff)
  have "real g - 1 < log 2 ?x"
    using gz ceiling_correct [of "log 2 ?x"] by simp
  then have "real (g - 1) < log 2 ?x"
    using g1 by simp
  then have "2 powr real (g - 1) < ?x"
    using x0 by (simp add: less_log_iff)
  then have "2 ^ (g - 1) < ?x"
    by (simp add: powr_realpow)
  then have "real c * 2 ^ (g - 1) < real k"
    using c by (simp add: field_simps)
  then have "real (c * 2 ^ (g - 1)) < real k" by simp
  then have lo: "c * 2 ^ (g - 1) < k" by (simp only: of_nat_less_iff)
  show ?thesis using up lo g1 by simp
qed

text \<open>
  C3. Construct an instance with capacity \<open>c > 0\<close> and then push \<open>k > c\<close> values (at most
  \<open>2^63\<close> of them), by either overload, no allocation failing and the move assignment
  defined for the values pushed by move. The constructor and all
  \<open>k\<close> pushes return; exactly \<open>\<lceil>log2 (k / c)\<rceil>\<close> of the pushes enter \<open>expand\<close>, and the
  \<open>i\<close>-th of them takes the capacity from \<open>c * 2^i\<close> to its double; in the end the live
  elements are the pushed values in the order of the pushes.
\<close>

theorem growth_steps_of_fresh_stack:
  assumes "pushes_of ops = Some vs" and "0 < unat c" and "unat c < length vs"
    and "length vs \<le> 2 ^ 63" and "moves_defined mv ops"
  shows "\<exists>s0. CherepkovStack_new cfg h c (fresh j) = ([], Return () s0) \<and>
           length (run cfg h mv ops s0) = length vs \<and>
           (\<forall>r \<in> set (run cfg h mv ops s0). \<exists>s'. r = ([], Return Void s')) \<and>
           length (growths cfg h mv ops s0) = nat \<lceil>log 2 (real (length vs) / real (unat c))\<rceil> \<and>
           growths cfg h mv ops s0
             = map (\<lambda>i. (unat c * 2 ^ i, 2 * (unat c * 2 ^ i)))
                 [0..<nat \<lceil>log 2 (real (length vs) / real (unat c))\<rceil>] \<and>
           (\<forall>(before, after) \<in> set (growths cfg h mv ops s0). after = 2 * before) \<and>
           (\<exists>s'. last (run cfg h mv ops s0) = ([], Return Void s') \<and> live s' = vs \<and>
              unat (capacity s') =
                unat c * 2 ^ nat \<lceil>log 2 (real (length vs) / real (unat c))\<rceil>)"
proof -
  let ?g = "nat \<lceil>log 2 (real (length vs) / real (unat c))\<rceil>"
  obtain s0 where n: "CherepkovStack_new cfg h c (fresh j) = ([], Return () s0)"
    and u: "uncorrupted h s0" and e: "errors s0 = 0" and l: "live s0 = []"
    and z: "size_m s0 = 0" and cap: "capacity s0 = c"
    using CherepkovStack_new_fresh [of cfg h c j] by blast
  have br: "length vs \<le> unat c * 2 ^ ?g \<and> unat c * 2 ^ (?g - 1) < length vs \<and> ?g \<noteq> 0"
    using ceiling_log2_bracket [OF assms(2,3)] .
  have ne: "ops \<noteq> []"
    using assms(1,3) by auto
  have len: "length vs = length ops"
    using assms(1) by (rule pushes_of_length)
  have main: "length (run cfg h mv ops s0) = length ops \<and>
      (\<forall>r \<in> set (run cfg h mv ops s0). \<exists>s'. r = ([], Return Void s')) \<and>
      growths cfg h mv ops s0
        = map (\<lambda>i. (unat (capacity s0) * 2 ^ i, unat (capacity s0) * 2 ^ Suc i)) [0..<?g] \<and>
      (ops \<noteq> [] \<longrightarrow>
        (\<exists>s'. last (run cfg h mv ops s0) = ([], Return Void s') \<and> live s' = live s0 @ vs \<and>
           unat (capacity s') = unat (capacity s0) * 2 ^ ?g))"
    using run_pushes [OF u e assms(1) _ _ _ _ assms(5), of ?g cfg] assms(2,4) br z cap
    by simp
  then have gs: "growths cfg h mv ops s0
      = map (\<lambda>i. (unat c * 2 ^ i, 2 * (unat c * 2 ^ i))) [0..<?g]"
    using cap by (simp add: mult.left_commute)
  have "\<forall>(before, after) \<in> set (growths cfg h mv ops s0). after = 2 * before"
    unfolding gs by auto
  moreover have "length (growths cfg h mv ops s0) = ?g"
    unfolding gs by simp
  ultimately show ?thesis
    using n main gs ne len l cap by auto
qed

theorem growth_steps_of_fresh_stack_witness:
  "pushes_of [Op_push 7 (fresh junk_nat), Op_push_rvalue 8 (fresh junk_nat),
              Op_push 9 (fresh junk_nat)] = Some [7, 8, 9] \<and>
   0 < unat (2 :: size_t) \<and> unat (2 :: size_t) < length [7, 8, 9 :: nat] \<and>
   moves_defined scalar_move
     [Op_push 7 (fresh junk_nat), Op_push_rvalue 8 (fresh junk_nat),
      Op_push 9 (fresh junk_nat)] \<and>
   (\<exists>s0. CherepkovStack_new as_shipped hash_nat 2 (fresh junk_nat) = ([], Return () s0) \<and>
      growths as_shipped hash_nat scalar_move
        [Op_push 7 (fresh junk_nat), Op_push_rvalue 8 (fresh junk_nat),
         Op_push 9 (fresh junk_nat)] s0 = [(2, 4)] \<and>
      nat \<lceil>log 2 (real (length [7, 8, 9 :: nat]) / real (unat (2 :: size_t)))\<rceil> = 1 \<and>
      (\<exists>s'. last (run as_shipped hash_nat scalar_move
                  [Op_push 7 (fresh junk_nat), Op_push_rvalue 8 (fresh junk_nat),
                   Op_push 9 (fresh junk_nat)] s0) = ([], Return Void s') \<and>
            live s' = [7, 8, 9] \<and> unat (capacity s') = 4))"
proof -
  let ?ops = "[Op_push 7 (fresh junk_nat), Op_push_rvalue 8 (fresh junk_nat),
              Op_push 9 (fresh junk_nat)]"
  let ?vs = "[7, 8, 9 :: nat]"
  let ?g = "nat \<lceil>log 2 (real (length ?vs) / real (unat (2 :: size_t)))\<rceil>"
  let ?s0 = "\<lparr>canary_before = POISON, control_sum = 0, capacity = 2, size_m = 0,
              buffer = Some [0, 0 :: nat], errors = 0, canary_after = POISON\<rparr>"
  have p: "pushes_of ?ops = Some ?vs" by simp
  have a: "0 < unat (2 :: size_t)" by simp
  have b: "unat (2 :: size_t) < length ?vs" by simp
  have c: "length ?vs \<le> 2 ^ 63" by simp
  have m: "moves_defined scalar_move ?ops"
    by (simp add: moves_defined_def scalar_move_def)
  have n: "CherepkovStack_new as_shipped hash_nat 2 (fresh junk_nat) = ([], Return () ?s0)"
    by code_simp
  have gr: "growths as_shipped hash_nat scalar_move ?ops ?s0 = [(2, 4)]"
    by code_simp
  obtain s0 where n': "CherepkovStack_new as_shipped hash_nat 2 (fresh junk_nat)
      = ([], Return () s0)"
    and len: "length (growths as_shipped hash_nat scalar_move ?ops s0) = ?g"
    and fin: "\<exists>s'. last (run as_shipped hash_nat scalar_move ?ops s0) = ([], Return Void s') \<and>
        live s' = ?vs \<and> unat (capacity s') = unat (2 :: size_t) * 2 ^ ?g"
    using growth_steps_of_fresh_stack [OF p a b c m, of as_shipped hash_nat junk_nat] by blast
  have s0: "s0 = ?s0" using n n' by simp
  have lg: "length [(2 :: nat, 4 :: nat)] = ?g"
    using len unfolding s0 gr .
  have l1: "length [(2 :: nat, 4 :: nat)] = 1" by simp
  have g: "?g = 1"
    by (rule trans [OF lg [symmetric] l1])
  have f: "\<exists>s'. last (run as_shipped hash_nat scalar_move ?ops ?s0) = ([], Return Void s') \<and>
        live s' = ?vs \<and> unat (capacity s') = 4"
    using fin unfolding g s0 by simp
  have inner: "CherepkovStack_new as_shipped hash_nat 2 (fresh junk_nat) = ([], Return () ?s0) \<and>
      growths as_shipped hash_nat scalar_move ?ops ?s0 = [(2, 4)] \<and> ?g = 1 \<and>
      (\<exists>s'. last (run as_shipped hash_nat scalar_move ?ops ?s0) = ([], Return Void s') \<and>
            live s' = ?vs \<and> unat (capacity s') = 4)"
    by (intro conjI) (rule n gr g f)+
  show ?thesis
    using p a b m inner by blast
qed

end
